theory Spec2Isabelle
  imports Complex_Main "HOL-Library.Word" "HOL-Library.AList"
begin

unbundle bit_operations_syntax

section \<open>Bytes and the SHA-256 hash object\<close>

text \<open>
  Both \<^verbatim>\<open>_compute_file_hash\<close> methods create a \<^verbatim>\<open>hashlib.sha256()\<close> object, feed
  it with \<^verbatim>\<open>update\<close> and read \<^verbatim>\<open>hexdigest()\<close>. The hash object is modelled as
  FIPS 180-4 describes it and as a streaming implementation holds it: the eight chaining
  words, the bytes that do not fill a 64-byte block yet, and the number of bytes absorbed.
\<close>

type_synonym byte = "8 word"
type_synonym u32 = "32 word"
type_synonym hstate = "u32 \<times> u32 \<times> u32 \<times> u32 \<times> u32 \<times> u32 \<times> u32 \<times> u32"

definition rotr :: "nat \<Rightarrow> u32 \<Rightarrow> u32" where
  "rotr n x = drop_bit n x OR push_bit (32 - n) x"

definition Ch :: "u32 \<Rightarrow> u32 \<Rightarrow> u32 \<Rightarrow> u32" where
  "Ch x y z = (x AND y) XOR (NOT x AND z)"

definition Maj :: "u32 \<Rightarrow> u32 \<Rightarrow> u32 \<Rightarrow> u32" where
  "Maj x y z = (x AND y) XOR (x AND z) XOR (y AND z)"

definition bsig0 :: "u32 \<Rightarrow> u32" where
  "bsig0 x = rotr 2 x XOR rotr 13 x XOR rotr 22 x"

definition bsig1 :: "u32 \<Rightarrow> u32" where
  "bsig1 x = rotr 6 x XOR rotr 11 x XOR rotr 25 x"

definition ssig0 :: "u32 \<Rightarrow> u32" where
  "ssig0 x = rotr 7 x XOR rotr 18 x XOR drop_bit 3 x"

definition ssig1 :: "u32 \<Rightarrow> u32" where
  "ssig1 x = rotr 17 x XOR rotr 19 x XOR drop_bit 10 x"

definition sha256_K :: "u32 list" where
  "sha256_K = [
   1116352408, 1899447441, 3049323471, 3921009573, 961987163, 1508970993, 2453635748, 2870763221,
   3624381080, 310598401, 607225278, 1426881987, 1925078388, 2162078206, 2614888103, 3248222580,
   3835390401, 4022224774, 264347078, 604807628, 770255983, 1249150122, 1555081692, 1996064986,
   2554220882, 2821834349, 2952996808, 3210313671, 3336571891, 3584528711, 113926993, 338241895,
   666307205, 773529912, 1294757372, 1396182291, 1695183700, 1986661051, 2177026350, 2456956037,
   2730485921, 2820302411, 3259730800, 3345764771, 3516065817, 3600352804, 4094571909, 275423344,
   430227734, 506948616, 659060556, 883997877, 958139571, 1322822218, 1537002063, 1747873779,
   1955562222, 2024104815, 2227730452, 2361852424, 2428436474, 2756734187, 3204031479, 3329325298]"

definition sha256_H0 :: hstate where
  "sha256_H0 = (1779033703, 3144134277, 1013904242, 2773480762,
                1359893119, 2600822924, 528734635, 1541459225)"

text \<open>A block is read as big-endian 32-bit words.\<close>

fun be_words :: "byte list \<Rightarrow> u32 list" where
  "be_words (a # b # c # d # rest) =
     (push_bit 24 (ucast a) OR push_bit 16 (ucast b) OR push_bit 8 (ucast c) OR ucast d)
       # be_words rest"
| "be_words _ = []"

text \<open>The message schedule: \<open>schedule 48\<close> extends the 16 words of a block to 64.\<close>

primrec schedule :: "nat \<Rightarrow> u32 list \<Rightarrow> u32 list" where
  "schedule 0 ws = ws"
| "schedule (Suc n) ws =
     (let t = length ws in
      schedule n
        (ws @ [ssig1 (ws ! (t - 2)) + ws ! (t - 7) + ssig0 (ws ! (t - 15)) + ws ! (t - 16)]))"

definition round_step :: "hstate \<Rightarrow> u32 \<times> u32 \<Rightarrow> hstate" where
  "round_step vs kw =
     (case vs of (a, b, c, d, e, f, g, h) \<Rightarrow>
      (let t1 = h + bsig1 e + Ch e f g + fst kw + snd kw;
           t2 = bsig0 a + Maj a b c
       in (t1 + t2, a, b, c, d + t1, e, f, g)))"

definition add_state :: "hstate \<Rightarrow> hstate \<Rightarrow> hstate" where
  "add_state x y =
     (case x of (a, b, c, d, e, f, g, h) \<Rightarrow>
      case y of (a', b', c', d', e', f', g', h') \<Rightarrow>
        (a + a', b + b', c + c', d + d', e + e', f + f', g + g', h + h'))"

definition compress :: "hstate \<Rightarrow> byte list \<Rightarrow> hstate" where
  "compress hs block =
     add_state hs (foldl round_step hs (zip sha256_K (schedule 48 (be_words block))))"

text \<open>Absorbing bytes: every full 64-byte block is compressed, the rest stays buffered.\<close>

function absorb :: "hstate \<Rightarrow> byte list \<Rightarrow> hstate \<times> byte list" where
  "absorb hs bs =
     (if 64 \<le> length bs then absorb (compress hs (take 64 bs)) (drop 64 bs) else (hs, bs))"
  by pat_completeness auto
termination
  by (relation "measure (\<lambda>(hs, bs). length bs)") auto

declare absorb.simps [simp del]

record sha_state =
  chain :: hstate
  buffer :: "byte list"
  msg_len :: nat

text \<open>\<^verbatim>\<open>hashlib.sha256()\<close>\<close>

definition sha256_new :: sha_state where
  "sha256_new = \<lparr>chain = sha256_H0, buffer = [], msg_len = 0\<rparr>"

text \<open>\<^verbatim>\<open>h.update(data)\<close>\<close>

definition sha256_update :: "sha_state \<Rightarrow> byte list \<Rightarrow> sha_state" where
  "sha256_update s bs =
     (case absorb (chain s) (buffer s @ bs) of (hs, rest) \<Rightarrow>
        \<lparr>chain = hs, buffer = rest, msg_len = msg_len s + length bs\<rparr>)"

text \<open>The message length in bits, as eight big-endian bytes (modulo \<open>2 ^ 64\<close>).\<close>

definition len_bytes :: "nat \<Rightarrow> byte list" where
  "len_bytes n =
     (let w = (of_nat (8 * n) :: 64 word)
      in map (\<lambda>i. ucast (drop_bit (8 * i) w)) [7, 6, 5, 4, 3, 2, 1, 0])"

definition padding :: "nat \<Rightarrow> byte list" where
  "padding len = 0x80 # replicate ((119 - len mod 64) mod 64) 0 @ len_bytes len"

definition word_bytes :: "u32 \<Rightarrow> byte list" where
  "word_bytes w = [ucast (drop_bit 24 w), ucast (drop_bit 16 w), ucast (drop_bit 8 w), ucast w]"

text \<open>\<^verbatim>\<open>h.digest()\<close>: pad a copy of the state, compress, and write the chaining words.\<close>

definition sha256_digest :: "sha_state \<Rightarrow> byte list" where
  "sha256_digest s =
     (case fst (absorb (chain s) (buffer s @ padding (msg_len s))) of
        (a, b, c, d, e, f, g, h) \<Rightarrow> concat (map word_bytes [a, b, c, d, e, f, g, h]))"

definition hex_digit :: "nat \<Rightarrow> char" where
  "hex_digit n = ''0123456789abcdef'' ! n"

definition hex_of_bytes :: "byte list \<Rightarrow> string" where
  "hex_of_bytes bs =
     concat (map (\<lambda>b. [hex_digit (unat b div 16), hex_digit (unat b mod 16)]) bs)"

text \<open>\<^verbatim>\<open>h.hexdigest()\<close>\<close>

definition sha256_hexdigest :: "sha_state \<Rightarrow> string" where
  "sha256_hexdigest s = hex_of_bytes (sha256_digest s)"

text \<open>
  SHA-256 of a whole byte string in one piece, \<^verbatim>\<open>hashlib.sha256(data).hexdigest()\<close>:
  the reference value the chunked fingerprints are compared with.
\<close>

definition sha256_hex :: "byte list \<Rightarrow> string" where
  "sha256_hex bs = sha256_hexdigest (sha256_update sha256_new bs)"

text \<open>A string of ASCII characters as bytes (\<^verbatim>\<open>b"hello"\<close>).\<close>

definition encode :: "string \<Rightarrow> byte list" where
  "encode s = map (\<lambda>c. of_nat (of_char c)) s"

section \<open>Paths (posixpath)\<close>

definition startswith :: "string \<Rightarrow> string \<Rightarrow> bool" where
  "startswith s p = (take (length p) s = p)"

definition endswith :: "string \<Rightarrow> string \<Rightarrow> bool" where
  "endswith s p = (length p \<le> length s \<and> drop (length s - length p) s = p)"

text \<open>\<^verbatim>\<open>s.split(c)\<close>: the pieces between the separators, empty pieces kept.\<close>

primrec split_sep :: "char \<Rightarrow> string \<Rightarrow> string list" where
  "split_sep c [] = [[]]"
| "split_sep c (x # xs) =
     (if x = c then [] # split_sep c xs
      else (case split_sep c xs of [] \<Rightarrow> [[x]] | w # ws \<Rightarrow> (x # w) # ws))"

text \<open>\<^verbatim>\<open>'/'.join(comps)\<close>\<close>

fun join_sep :: "string list \<Rightarrow> string" where
  "join_sep [] = []"
| "join_sep [x] = x"
| "join_sep (x # y # ys) = x @ ''/'' @ join_sep (y # ys)"

text \<open>\<^verbatim>\<open>os.path.join(a, b)\<close> for two arguments.\<close>

definition path_join :: "string \<Rightarrow> string \<Rightarrow> string" where
  "path_join a b =
     (if startswith b ''/'' then b
      else if a = [] \<or> endswith a ''/'' then a @ b
      else a @ ''/'' @ b)"

text \<open>\<^verbatim>\<open>os.path.basename(p)\<close>: what follows the last slash.\<close>

definition basename :: "string \<Rightarrow> string" where
  "basename p = rev (takeWhile (\<lambda>c. c \<noteq> CHR ''/'') (rev p))"

text \<open>The body of the loop of \<^verbatim>\<open>posixpath.normpath\<close> over the components.\<close>

definition norm_step :: "nat \<Rightarrow> string list \<Rightarrow> string \<Rightarrow> string list" where
  "norm_step initial_slashes new_comps cmp =
     (if cmp = [] \<or> cmp = ''.'' then new_comps
      else if cmp \<noteq> ''..'' \<or> (initial_slashes = 0 \<and> new_comps = [])
              \<or> (new_comps \<noteq> [] \<and> last new_comps = ''..'')
           then new_comps @ [cmp]
      else if new_comps \<noteq> [] then butlast new_comps
      else new_comps)"

definition normpath :: "string \<Rightarrow> string" where
  "normpath path =
     (if path = [] then ''.''
      else
        let initial_slashes =
              (if startswith path ''/''
               then (if startswith path ''//'' \<and> \<not> startswith path ''///'' then 2 else 1)
               else (0::nat));
            comps = foldl (norm_step initial_slashes) [] (split_sep CHR ''/'' path);
            p = replicate initial_slashes CHR ''/'' @ join_sep comps
        in if p = [] then ''.'' else p)"

text \<open>\<^verbatim>\<open>os.path.abspath(path)\<close>; the working directory of the process is a parameter.\<close>

definition abspath :: "string \<Rightarrow> string \<Rightarrow> string" where
  "abspath cwd path =
     normpath (if startswith path ''/'' then path else path_join cwd path)"

section \<open>The file system\<close>

text \<open>
  A snapshot of the directory tree. A file carries what \<^verbatim>\<open>open(...).read()\<close> and
  \<^verbatim>\<open>os.stat\<close> give for it, each of which may fail with \<^verbatim>\<open>OSError\<close> (\<open>None\<close>);
  a directory carries whether it can be listed, and its entries in listing order. A
  \<open>Broken\<close> entry is a name whose target cannot be examined, such as a dangling or
  unreadable symbolic link: \<^verbatim>\<open>os.stat\<close> and \<^verbatim>\<open>open\<close> fail on it,
  \<^verbatim>\<open>os.path.exists\<close> is false, and the flag tells whether \<^verbatim>\<open>DirEntry.is_file()\<close>
  raises \<^verbatim>\<open>OSError\<close> for it or returns false.
  Time stamps are seconds since the epoch (Python floats), taken as real numbers.
\<close>

record stat_result =
  st_size :: nat
  st_mtime :: real
  st_ctime :: real
  st_uid :: nat

record file_info =
  fdata :: "byte list option"
  fstat :: "stat_result option"

datatype node = File file_info | Dir bool "(string \<times> node) list" | Broken bool

text \<open>The components of a path that name something: empty pieces are dropped.\<close>

definition path_comps :: "string \<Rightarrow> string list" where
  "path_comps p = filter (\<lambda>c. c \<noteq> []) (split_sep CHR ''/'' p)"

fun descend :: "node \<Rightarrow> string list \<Rightarrow> node option" where
  "descend n [] = Some n"
| "descend (File fi) (c # cs) = None"
| "descend (Broken raises) (c # cs) = None"
| "descend (Dir ok es) (c # cs) =
     (case map_of es c of None \<Rightarrow> None | Some n \<Rightarrow> descend n cs)"

text \<open>The node an absolute path names, from the root directory of the file system.\<close>

definition resolve :: "node \<Rightarrow> string \<Rightarrow> node option" where
  "resolve fs p = descend fs (path_comps p)"

datatype exn =
    OSError | ValueError | OverflowError
  | ConnectorValidationError | ConnectorMissingCredentialError

definition path_exists :: "node \<Rightarrow> string \<Rightarrow> bool" where
  "path_exists fs p =
     (case resolve fs p of
        Some (File fi) \<Rightarrow> True
      | Some (Dir ok es) \<Rightarrow> True
      | _ \<Rightarrow> False)"

definition path_isfile :: "node \<Rightarrow> string \<Rightarrow> bool" where
  "path_isfile fs p = (case resolve fs p of Some (File fi) \<Rightarrow> True | _ \<Rightarrow> False)"

definition path_isdir :: "node \<Rightarrow> string \<Rightarrow> bool" where
  "path_isdir fs p = (case resolve fs p of Some (Dir ok es) \<Rightarrow> True | _ \<Rightarrow> False)"

text \<open>\<^verbatim>\<open>open(p, "rb")\<close>: the bytes behind the file object, or \<^verbatim>\<open>OSError\<close>.\<close>

definition open_rb :: "node \<Rightarrow> string \<Rightarrow> exn + byte list" where
  "open_rb fs p =
     (case resolve fs p of
        Some (File fi) \<Rightarrow> (case fdata fi of Some bs \<Rightarrow> Inr bs | None \<Rightarrow> Inl OSError)
      | _ \<Rightarrow> Inl OSError)"

text \<open>
  \<^verbatim>\<open>os.stat(p)\<close> of a file. The callers reach it for regular files; on anything else
  they fail at \<^verbatim>\<open>open\<close> too, so the result there is the error.
\<close>

definition os_stat :: "node \<Rightarrow> string \<Rightarrow> exn + stat_result" where
  "os_stat fs p =
     (case resolve fs p of
        Some (File fi) \<Rightarrow> (case fstat fi of Some st \<Rightarrow> Inr st | None \<Rightarrow> Inl OSError)
      | _ \<Rightarrow> Inl OSError)"

text \<open>\<^verbatim>\<open>os.scandir(p)\<close>: the entries of a directory that can be listed.\<close>

definition scandir :: "node \<Rightarrow> string \<Rightarrow> exn + (string \<times> node) list" where
  "scandir fs p =
     (case resolve fs p of
        Some (Dir ok es) \<Rightarrow> (if ok then Inr es else Inl OSError)
      | _ \<Rightarrow> Inl OSError)"

text \<open>
  \<^verbatim>\<open>entry.is_dir()\<close> as \<^verbatim>\<open>os.walk\<close> uses it, where an \<^verbatim>\<open>OSError\<close> counts as
  false, and \<^verbatim>\<open>entry.is_file()\<close>, which may raise.
\<close>

definition is_dir_entry :: "string \<times> node \<Rightarrow> bool" where
  "is_dir_entry e = (case snd e of Dir ok es \<Rightarrow> True | _ \<Rightarrow> False)"

definition entry_is_file :: "string \<times> node \<Rightarrow> exn + bool" where
  "entry_is_file e =
     (case snd e of
        File fi \<Rightarrow> Inr True
      | Dir ok es \<Rightarrow> Inr False
      | Broken raises \<Rightarrow> (if raises then Inl OSError else Inr False))"

text \<open>
  \<^verbatim>\<open>os.walk(dirpath)\<close>, top-down, with its default \<^verbatim>\<open>onerror=None\<close>: a directory
  that cannot be listed is passed over in silence and contributes nothing; every other
  directory yields \<open>(dirpath, dirnames, filenames)\<close>, where every entry that is not
  a directory is a file name, and is followed by its subdirectories in listing order.
\<close>

fun walk_node :: "string \<Rightarrow> node \<Rightarrow> (string \<times> string list \<times> string list) list" where
  "walk_node dirpath (File fi) = []"
| "walk_node dirpath (Broken raises) = []"
| "walk_node dirpath (Dir ok es) =
     (if \<not> ok then []
      else (dirpath, map fst (filter is_dir_entry es),
              map fst (filter (\<lambda>e. \<not> is_dir_entry e) es))
           # concat (map (\<lambda>e. walk_node (path_join dirpath (fst e)) (snd e)) es))"

definition os_walk :: "node \<Rightarrow> string \<Rightarrow> (string \<times> string list \<times> string list) list" where
  "os_walk fs p = (case resolve fs p of None \<Rightarrow> [] | Some n \<Rightarrow> walk_node p n)"

section \<open>Library functions outside the repository\<close>

text \<open>
  The functions the two source files call but do not define are parameters of the model:
  \<^verbatim>\<open>fnmatch.fnmatch(filename, pattern)\<close>, \<^verbatim>\<open>os.path.relpath(path, start)\<close>,
  \<^verbatim>\<open>hashlib.md5(s.encode()).hexdigest()\<close>, the first component of
  \<^verbatim>\<open>mimetypes.guess_type(path)\<close>, \<^verbatim>\<open>get_file_ext\<close>, the value of
  \<^verbatim>\<open>DocumentSource.LOCAL_FOLDER\<close>, and the two conversions of a time stamp,
  \<^verbatim>\<open>datetime.fromtimestamp(t, tz=timezone.utc)\<close> and
  \<^verbatim>\<open>datetime.fromtimestamp(t)\<close>. A conversion rounds to the microsecond and raises
  for a time stamp it cannot represent (\<^verbatim>\<open>ValueError\<close> for a year after 9999,
  \<^verbatim>\<open>OverflowError\<close> or \<^verbatim>\<open>OSError\<close> further out, depending on the platform);
  a \<open>datetime\<close> is kept as its number of microseconds since the epoch, which is
  what the comparisons of two of them compare.
\<close>

type_synonym datetime = int

record pylib =
  fnmatch :: "string \<Rightarrow> string \<Rightarrow> bool"
  relpath :: "string \<Rightarrow> string \<Rightarrow> string"
  md5_hex :: "string \<Rightarrow> string"
  guess_type :: "string \<Rightarrow> string option"
  get_file_ext :: "string \<Rightarrow> string"
  local_folder_source :: string
  fromtimestamp :: "real \<Rightarrow> exn + datetime"
  fromtimestamp_local :: "real \<Rightarrow> exn + datetime"

section \<open>The connector (local\_folder\_connector.py)\<close>

record connector =
  folder_path :: string
  recursive :: bool
  file_patterns :: "string list"
  compute_hash :: bool
  batch_size :: int
  allowed_base_path :: string

text \<open>
  \<^verbatim>\<open>LocalFolderConnector.__init__\<close>. The check is Python's \<^verbatim>\<open>str.startswith\<close> on
  the two normalised paths.
\<close>

definition connector_init ::
  "string \<Rightarrow> string \<Rightarrow> bool \<Rightarrow> string list option \<Rightarrow> bool \<Rightarrow> int \<Rightarrow> string
     \<Rightarrow> exn + connector" where
  "connector_init cwd fpath rec pats hashing bsize base =
     (let c = \<lparr>folder_path = abspath cwd fpath,
               recursive = rec,
               file_patterns = (case pats of None \<Rightarrow> [] | Some ps \<Rightarrow> ps),
               compute_hash = hashing,
               batch_size = bsize,
               allowed_base_path = abspath cwd base\<rparr>
      in if \<not> startswith (folder_path c) (allowed_base_path c)
         then Inl ConnectorValidationError
         else Inr c)"

text \<open>\<^verbatim>\<open>load_credentials\<close>\<close>

definition load_credentials :: "node \<Rightarrow> connector \<Rightarrow> exn + unit" where
  "load_credentials fs c =
     (if \<not> path_exists fs (folder_path c) then Inl ConnectorMissingCredentialError
      else if \<not> path_isdir fs (folder_path c) then Inl ConnectorValidationError
      else Inr ())"

text \<open>
  The loop \<^verbatim>\<open>for byte_block in iter(lambda: f.read(4096), b""): h.update(byte_block)\<close>;
  the second argument is what the file object has not read yet. \<^verbatim>\<open>f.read(4096)\<close>
  returns the next 4096 bytes, or fewer at the end of the file, and the loop stops at the
  first empty block.
\<close>

function hash_blocks :: "sha_state \<Rightarrow> byte list \<Rightarrow> sha_state" where
  "hash_blocks h unread =
     (let byte_block = take 4096 unread
      in if byte_block = [] then h
         else hash_blocks (sha256_update h byte_block) (drop 4096 unread))"
  by pat_completeness auto
termination
  by (relation "measure (\<lambda>(h, unread). length unread)") auto

declare hash_blocks.simps [simp del]

text \<open>\<^verbatim>\<open>LocalFolderConnector._compute_file_hash\<close>\<close>

definition compute_file_hash :: "node \<Rightarrow> string \<Rightarrow> exn + string" where
  "compute_file_hash fs file_path =
     (case open_rb fs file_path of
        Inl e \<Rightarrow> Inl e
      | Inr bs \<Rightarrow> Inr (sha256_hexdigest (hash_blocks sha256_new bs)))"

text \<open>\<^verbatim>\<open>LocalFolderConnector._should_include_file\<close>\<close>

definition should_include_file :: "pylib \<Rightarrow> connector \<Rightarrow> string \<Rightarrow> bool" where
  "should_include_file lib c file_path =
     (if file_patterns c = [] then True
      else list_ex (\<lambda>pattern. fnmatch lib (basename file_path) pattern) (file_patterns c))"

text \<open>
  The modification-time filter of \<^verbatim>\<open>_list_files\<close>, inside its
  \<^verbatim>\<open>try ... except OSError: continue\<close>; the last argument is what reading the time
  stamp gave. An \<^verbatim>\<open>OSError\<close>, of the read or of the conversion, skips the file
  (\<open>Inr False\<close>), and so does a time outside the bounds that are present; any other
  exception of the conversion is not caught there and leaves \<^verbatim>\<open>_list_files\<close>.
\<close>

definition mtime_passes ::
  "pylib \<Rightarrow> datetime option \<Rightarrow> datetime option \<Rightarrow> exn + real \<Rightarrow> exn + bool" where
  "mtime_passes lib start_time end_time m =
     (case (case m of Inl e \<Rightarrow> Inl e | Inr t \<Rightarrow> fromtimestamp lib t) of
        Inl e \<Rightarrow> (if e = OSError then Inr False else Inl e)
      | Inr mtime \<Rightarrow>
          (if (case start_time of Some s \<Rightarrow> mtime < s | None \<Rightarrow> False) then Inr False
           else if (case end_time of Some e \<Rightarrow> mtime > e | None \<Rightarrow> False) then Inr False
           else Inr True))"

text \<open>\<^verbatim>\<open>os.path.getmtime(p)\<close>\<close>

definition getmtime :: "node \<Rightarrow> string \<Rightarrow> exn + real" where
  "getmtime fs p = (case os_stat fs p of Inl e \<Rightarrow> Inl e | Inr st \<Rightarrow> Inr (st_mtime st))"

text \<open>\<^verbatim>\<open>entry.stat().st_mtime\<close> of a directory entry that is a file.\<close>

definition entry_mtime :: "string \<times> node \<Rightarrow> exn + real" where
  "entry_mtime e =
     (case snd e of
        File fi \<Rightarrow> (case fstat fi of Some st \<Rightarrow> Inr (st_mtime st) | None \<Rightarrow> Inl OSError)
      | _ \<Rightarrow> Inl OSError)"

text \<open>
  The body of the recursive branch for one file: is the path appended, or does an
  exception leave the loop?
\<close>

definition keep_walked ::
  "pylib \<Rightarrow> node \<Rightarrow> connector \<Rightarrow> datetime option \<Rightarrow> datetime option \<Rightarrow> string
     \<Rightarrow> exn + bool" where
  "keep_walked lib fs c start_time end_time file_path =
     (if \<not> should_include_file lib c file_path then Inr False
      else if start_time \<noteq> None \<or> end_time \<noteq> None
           then mtime_passes lib start_time end_time (getmtime fs file_path)
      else Inr True)"

text \<open>The body of the top-level branch for one entry.\<close>

definition keep_entry ::
  "pylib \<Rightarrow> connector \<Rightarrow> datetime option \<Rightarrow> datetime option \<Rightarrow> string \<times> node
     \<Rightarrow> exn + bool" where
  "keep_entry lib c start_time end_time e =
     (case entry_is_file e of
        Inl err \<Rightarrow> Inl err
      | Inr is_file \<Rightarrow>
          if \<not> is_file then Inr False
          else if \<not> should_include_file lib c (path_join (folder_path c) (fst e))
               then Inr False
          else if start_time \<noteq> None \<or> end_time \<noteq> None
               then mtime_passes lib start_time end_time (entry_mtime e)
          else Inr True)"

text \<open>
  A loop that appends the items its body keeps: the first exception that leaves the body
  ends the loop and is the result.
\<close>

fun append_kept :: "('a \<Rightarrow> exn + bool) \<Rightarrow> 'a list \<Rightarrow> 'a list \<Rightarrow> exn + 'a list" where
  "append_kept keep [] files = Inr files"
| "append_kept keep (x # xs) files =
     (case keep x of
        Inl e \<Rightarrow> Inl e
      | Inr kept \<Rightarrow> append_kept keep xs (if kept then files @ [x] else files))"

text \<open>
  \<^verbatim>\<open>LocalFolderConnector._list_files\<close>. The recursive branch iterates
  \<^verbatim>\<open>os.walk\<close> with no handler around it; the top-level branch turns an
  \<^verbatim>\<open>OSError\<close> of \<^verbatim>\<open>os.scandir\<close> or of \<^verbatim>\<open>entry.is_file()\<close> into
  \<^verbatim>\<open>ConnectorValidationError\<close> and lets any other exception through.
\<close>

definition list_files ::
  "pylib \<Rightarrow> node \<Rightarrow> connector \<Rightarrow> datetime option \<Rightarrow> datetime option
     \<Rightarrow> exn + string list" where
  "list_files lib fs c start_time end_time =
     (if recursive c
      then append_kept (keep_walked lib fs c start_time end_time)
             (concat (map (\<lambda>(root, dirs, filenames). map (path_join root) filenames)
                        (os_walk fs (folder_path c))))
             []
      else (case scandir fs (folder_path c) of
              Inl e \<Rightarrow> Inl ConnectorValidationError
            | Inr es \<Rightarrow>
                (case append_kept (keep_entry lib c start_time end_time) es [] of
                   Inl e \<Rightarrow> (if e = OSError then Inl ConnectorValidationError else Inl e)
                 | Inr kept \<Rightarrow> Inr (map (\<lambda>e. path_join (folder_path c) (fst e)) kept))))"

record doc_metadata =
  source_path :: string
  relative_path :: string
  md_folder_path :: string
  file_size :: nat
  mime_type :: string
  checksum :: "string option"
  checksum_algorithm :: "string option"

record document =
  doc_id :: string
  source :: string
  semantic_identifier :: string
  extension :: string
  blob :: "byte list"
  doc_updated_at :: datetime
  size_bytes :: nat
  metadata :: doc_metadata

text \<open>\<^verbatim>\<open>_get_mime_type\<close>: \<^verbatim>\<open>mime_type or "application/octet-stream"\<close>\<close>

definition get_mime_type :: "pylib \<Rightarrow> string \<Rightarrow> string" where
  "get_mime_type lib file_path =
     (case guess_type lib file_path of
        None \<Rightarrow> ''application/octet-stream''
      | Some m \<Rightarrow> (if m = [] then ''application/octet-stream'' else m))"

text \<open>
  \<^verbatim>\<open>LocalFolderConnector._create_document\<close>. Any exception is logged and raised again,
  that of the conversion of the modification time included; with hashing on, the file
  is hashed once for the id and once more for the checksum.
\<close>

definition create_document :: "pylib \<Rightarrow> node \<Rightarrow> connector \<Rightarrow> string \<Rightarrow> exn + document" where
  "create_document lib fs c file_path =
     (case os_stat fs file_path of
        Inl e \<Rightarrow> Inl e
      | Inr stat_info \<Rightarrow>
     (case fromtimestamp lib (st_mtime stat_info) of
        Inl e \<Rightarrow> Inl e
      | Inr mtime \<Rightarrow>
     (case open_rb fs file_path of
        Inl e \<Rightarrow> Inl e
      | Inr content \<Rightarrow>
     (case (if compute_hash c
            then (case compute_file_hash fs file_path of
                    Inl e \<Rightarrow> Inl e
                  | Inr file_hash \<Rightarrow> Inr (''local_folder_'' @ file_hash))
            else Inr (''local_folder_''
                        @ md5_hex lib (relpath lib file_path (folder_path c)))) of
        Inl e \<Rightarrow> Inl e
      | Inr ident \<Rightarrow>
     (let md = \<lparr>source_path = file_path,
                relative_path = relpath lib file_path (folder_path c),
                md_folder_path = folder_path c,
                file_size = st_size stat_info,
                mime_type = get_mime_type lib file_path,
                checksum = None,
                checksum_algorithm = None\<rparr>
      in
     (case (if compute_hash c
            then (case compute_file_hash fs file_path of
                    Inl e \<Rightarrow> Inl e
                  | Inr cs \<Rightarrow> Inr (md\<lparr>checksum := Some cs,
                                      checksum_algorithm := Some ''SHA-256''\<rparr>))
            else Inr md) of
        Inl e \<Rightarrow> Inl e
      | Inr md' \<Rightarrow>
          Inr \<lparr>doc_id = ident,
               source = local_folder_source lib,
               semantic_identifier = basename file_path,
               extension = get_file_ext lib file_path,
               blob = content,
               doc_updated_at = mtime,
               size_bytes = st_size stat_info,
               metadata = md'\<rparr>))))))"

text \<open>
  The batching loop shared by \<^verbatim>\<open>load_from_state\<close> and \<^verbatim>\<open>poll_source\<close>: the
  arguments are the files not visited yet and the current \<^verbatim>\<open>batch\<close>, the result is
  the list of batches the generator yields, in order. A file whose document cannot be
  created is logged and passed over.
\<close>

fun process_in_batches ::
  "(string \<Rightarrow> exn + document) \<Rightarrow> int \<Rightarrow> string list \<Rightarrow> document list \<Rightarrow> document list list" where
  "process_in_batches mk bsize [] batch = (if batch \<noteq> [] then [batch] else [])"
| "process_in_batches mk bsize (file_path # files) batch =
     (case mk file_path of
        Inl e \<Rightarrow> process_in_batches mk bsize files batch
      | Inr doc \<Rightarrow>
          (let batch' = batch @ [doc]
           in if int (length batch') \<ge> bsize
              then batch' # process_in_batches mk bsize files []
              else process_in_batches mk bsize files batch'))"

text \<open>\<^verbatim>\<open>LocalFolderConnector.load_from_state\<close>\<close>

definition load_from_state :: "pylib \<Rightarrow> node \<Rightarrow> connector \<Rightarrow> exn + document list list" where
  "load_from_state lib fs c =
     (case list_files lib fs c None None of
        Inl e \<Rightarrow> Inl e
      | Inr files \<Rightarrow>
          Inr (process_in_batches (create_document lib fs c) (batch_size c) files []))"

text \<open>
  \<^verbatim>\<open>LocalFolderConnector.poll_source\<close>: the two bounds are converted first, and an
  exception of either conversion, like one of \<^verbatim>\<open>_list_files\<close>, leaves the generator
  before anything is yielded.
\<close>

definition poll_source ::
  "pylib \<Rightarrow> node \<Rightarrow> connector \<Rightarrow> real \<Rightarrow> real \<Rightarrow> exn + document list list" where
  "poll_source lib fs c start end =
     (case fromtimestamp lib start of
        Inl e \<Rightarrow> Inl e
      | Inr start_time \<Rightarrow>
     (case fromtimestamp lib end of
        Inl e \<Rightarrow> Inl e
      | Inr end_time \<Rightarrow>
     (case list_files lib fs c (Some start_time) (Some end_time) of
        Inl e \<Rightarrow> Inl e
      | Inr files \<Rightarrow>
          Inr (process_in_batches (create_document lib fs c) (batch_size c) files []))))"

text \<open>The documents that can be created for a list of files, in the order of the files.\<close>

definition created_documents :: "(string \<Rightarrow> exn + document) \<Rightarrow> string list \<Rightarrow> document list" where
  "created_documents mk files =
     concat (map (\<lambda>p. case mk p of Inl e \<Rightarrow> [] | Inr doc \<Rightarrow> [doc]) files)"

section \<open>The watcher (local\_folder\_watcher.py)\<close>

text \<open>
  The state of a \<^verbatim>\<open>FileChangeHandler\<close>. \<^verbatim>\<open>file_hashes\<close> is a dictionary used by key
  only; \<^verbatim>\<open>pending_changes\<close> is iterated, so it keeps Python's insertion order as an
  association list (\<open>AList.update\<close> overwrites a key in place and appends a new one).
  Times are what \<^verbatim>\<open>time.time()\<close> returned, as real numbers.
\<close>

record handler =
  ragflow_url :: string
  api_key :: string
  connector_id :: string
  w_folder_path :: string
  w_file_patterns :: "string list"
  debounce_seconds :: int
  file_hashes :: "string \<rightharpoonup> string"
  pending_changes :: "(string \<times> real) list"

text \<open>\<^verbatim>\<open>FileChangeHandler._should_include_file\<close>\<close>

definition w_should_include_file :: "pylib \<Rightarrow> handler \<Rightarrow> string \<Rightarrow> bool" where
  "w_should_include_file lib h file_path =
     (if w_file_patterns h = [] then True
      else list_ex (\<lambda>pattern. fnmatch lib (basename file_path) pattern) (w_file_patterns h))"

text \<open>The read loop of \<^verbatim>\<open>FileChangeHandler._compute_file_hash\<close>, as the source has it.\<close>

function w_hash_blocks :: "sha_state \<Rightarrow> byte list \<Rightarrow> sha_state" where
  "w_hash_blocks h unread =
     (let byte_block = take 4096 unread
      in if byte_block = [] then h
         else w_hash_blocks (sha256_update h byte_block) (drop 4096 unread))"
  by pat_completeness auto
termination
  by (relation "measure (\<lambda>(h, unread). length unread)") auto

declare w_hash_blocks.simps [simp del]

text \<open>\<^verbatim>\<open>FileChangeHandler._compute_file_hash\<close>\<close>

definition w_compute_file_hash :: "node \<Rightarrow> string \<Rightarrow> exn + string" where
  "w_compute_file_hash fs file_path =
     (case open_rb fs file_path of
        Inl e \<Rightarrow> Inl e
      | Inr bs \<Rightarrow> Inr (sha256_hexdigest (w_hash_blocks sha256_new bs)))"

record w_metadata =
  m_source_path :: string
  m_relative_path :: string
  m_folder_path :: string
  m_file_size :: nat
  m_mime_type :: string
  m_created_at :: datetime
  m_modified_at :: datetime
  m_owner :: nat
  m_checksum :: string
  m_checksum_algorithm :: string

text \<open>
  \<^verbatim>\<open>FileChangeHandler._get_file_metadata\<close>; the two times are kept as the
  \<open>datetime\<close> values instead of their ISO strings, and an exception of either
  conversion leaves the function.
\<close>

definition get_file_metadata :: "pylib \<Rightarrow> node \<Rightarrow> handler \<Rightarrow> string \<Rightarrow> exn + w_metadata" where
  "get_file_metadata lib fs h file_path =
     (case os_stat fs file_path of
        Inl e \<Rightarrow> Inl e
      | Inr stat_info \<Rightarrow>
     (case fromtimestamp_local lib (st_ctime stat_info) of
        Inl e \<Rightarrow> Inl e
      | Inr created_at \<Rightarrow>
     (case fromtimestamp_local lib (st_mtime stat_info) of
        Inl e \<Rightarrow> Inl e
      | Inr modified_at \<Rightarrow>
     (case w_compute_file_hash fs file_path of
        Inl e \<Rightarrow> Inl e
      | Inr cs \<Rightarrow>
          Inr \<lparr>m_source_path = file_path,
               m_relative_path = relpath lib file_path (w_folder_path h),
               m_folder_path = w_folder_path h,
               m_file_size = st_size stat_info,
               m_mime_type = (case guess_type lib file_path of
                                None \<Rightarrow> ''application/octet-stream''
                              | Some m \<Rightarrow> (if m = [] then ''application/octet-stream'' else m)),
               m_created_at = created_at,
               m_modified_at = modified_at,
               m_owner = st_uid stat_info,
               m_checksum = cs,
               m_checksum_algorithm = ''SHA-256''\<rparr>))))"

text \<open>
  The upload: what \<^verbatim>\<open>requests.post\<close> is called with, and what comes back, an exception
  or a response with its status code. The server is a parameter, a function from the
  request to the outcome.
\<close>

record upload_request =
  url :: string
  up_filename :: string
  up_content :: "byte list"
  kb_id :: string
  up_metadata :: w_metadata
  authorization :: string

datatype http_result = HttpException | HttpResponse int

text \<open>
  \<^verbatim>\<open>FileChangeHandler._sync_file_to_ragflow\<close>. The result is the new state and the list
  of requests posted. Every exception inside is caught and logged, so each failing step
  returns with the state as it was.
\<close>

definition sync_file_to_ragflow ::
  "pylib \<Rightarrow> node \<Rightarrow> (upload_request \<Rightarrow> http_result) \<Rightarrow> handler \<Rightarrow> string
     \<Rightarrow> handler \<times> upload_request list" where
  "sync_file_to_ragflow lib fs post h file_path =
     (case w_compute_file_hash fs file_path of
        Inl e \<Rightarrow> (h, [])
      | Inr file_hash \<Rightarrow>
          if file_hashes h file_path = Some file_hash then (h, [])
          else
     (case get_file_metadata lib fs h file_path of
        Inl e \<Rightarrow> (h, [])
      | Inr md \<Rightarrow>
     (case open_rb fs file_path of
        Inl e \<Rightarrow> (h, [])
      | Inr file_content \<Rightarrow>
          (let req = \<lparr>url = ragflow_url h @ ''/v1/document/upload'',
                      up_filename = basename file_path,
                      up_content = file_content,
                      kb_id = connector_id h,
                      up_metadata = md,
                      authorization = ''Bearer '' @ api_key h\<rparr>
           in case post req of
                HttpException \<Rightarrow> (h, [req])
              | HttpResponse status_code \<Rightarrow>
                  if status_code = 200
                  then (h\<lparr>file_hashes := (file_hashes h)(file_path \<mapsto> file_hash)\<rparr>, [req])
                  else (h, [req])))))"

text \<open>
  \<^verbatim>\<open>FileChangeHandler._handle_file_change\<close>, called at time \<open>now\<close> with the file system
  as it is then.
\<close>

definition handle_file_change :: "pylib \<Rightarrow> node \<Rightarrow> real \<Rightarrow> handler \<Rightarrow> string \<Rightarrow> handler" where
  "handle_file_change lib fs now h file_path =
     (if \<not> path_exists fs file_path
      then (if file_path \<in> dom (file_hashes h)
            then h\<lparr>file_hashes := (file_hashes h)(file_path := None)\<rparr>
            else h)
      else if \<not> path_isfile fs file_path then h
      else if \<not> w_should_include_file lib h file_path then h
      else h\<lparr>pending_changes := AList.update file_path now (pending_changes h)\<rparr>)"

text \<open>
  The first loop of \<^verbatim>\<open>process_pending_changes\<close>, over the snapshot
  \<^verbatim>\<open>list(self.pending_changes.items())\<close>: the arguments are the items not visited yet,
  the dictionary and \<^verbatim>\<open>to_process\<close>.
\<close>

fun drain_ready ::
  "real \<Rightarrow> int \<Rightarrow> (string \<times> real) list \<Rightarrow> (string \<times> real) list \<Rightarrow> string list
     \<Rightarrow> (string \<times> real) list \<times> string list" where
  "drain_ready current_time debounce [] pending to_process = (pending, to_process)"
| "drain_ready current_time debounce ((file_path, change_time) # items) pending to_process =
     (if current_time - change_time \<ge> real_of_int debounce
      then drain_ready current_time debounce items
             (AList.delete file_path pending) (to_process @ [file_path])
      else drain_ready current_time debounce items pending to_process)"

text \<open>The second loop: every released path is synced, in order.\<close>

fun sync_all ::
  "pylib \<Rightarrow> node \<Rightarrow> (upload_request \<Rightarrow> http_result) \<Rightarrow> handler \<Rightarrow> string list
     \<Rightarrow> handler \<times> upload_request list" where
  "sync_all lib fs post h [] = (h, [])"
| "sync_all lib fs post h (file_path # rest) =
     (case sync_file_to_ragflow lib fs post h file_path of
        (h', reqs) \<Rightarrow>
          (case sync_all lib fs post h' rest of (h'', reqs') \<Rightarrow> (h'', reqs @ reqs')))"

text \<open>
  \<^verbatim>\<open>FileChangeHandler.process_pending_changes\<close> at time \<open>current_time\<close>: the new state,
  the paths released to \<^verbatim>\<open>_sync_file_to_ragflow\<close> and the requests posted.
\<close>

definition process_pending_changes ::
  "pylib \<Rightarrow> node \<Rightarrow> (upload_request \<Rightarrow> http_result) \<Rightarrow> real \<Rightarrow> handler
     \<Rightarrow> handler \<times> string list \<times> upload_request list" where
  "process_pending_changes lib fs post current_time h =
     (case drain_ready current_time (debounce_seconds h)
             (pending_changes h) (pending_changes h) [] of
        (pending, to_process) \<Rightarrow>
          (case sync_all lib fs post (h\<lparr>pending_changes := pending\<rparr>) to_process of
             (h', reqs) \<Rightarrow> (h', to_process, reqs)))"

text \<open>
  A run of the watcher: raw notifications (\<^verbatim>\<open>on_created\<close>, \<^verbatim>\<open>on_modified\<close>,
  \<^verbatim>\<open>on_deleted\<close> of a file all call \<^verbatim>\<open>_handle_file_change\<close> with its path) and the
  drains of the main loop, each with its time and the file system at that time. The
  log lists every release as (time of the drain, path).
\<close>

datatype action =
    Notify node string real
  | Drain node "upload_request \<Rightarrow> http_result" real

fun action_time :: "action \<Rightarrow> real" where
  "action_time (Notify fs p t) = t"
| "action_time (Drain fs post t) = t"

fun run_watcher ::
  "pylib \<Rightarrow> action list \<Rightarrow> handler \<Rightarrow> handler \<times> (real \<times> string) list" where
  "run_watcher lib [] h = (h, [])"
| "run_watcher lib (Notify fs p t # acts) h =
     run_watcher lib acts (handle_file_change lib fs t h p)"
| "run_watcher lib (Drain fs post t # acts) h =
     (case process_pending_changes lib fs post t h of
        (h', released, reqs) \<Rightarrow>
          (case run_watcher lib acts h' of
             (h'', releases) \<Rightarrow> (h'', map (Pair t) released @ releases)))"

section \<open>Reading a run of the watcher\<close>

text \<open>
  What the statements about a run speak of: the times of the notifications for a
  path, the file systems they were raised in, whether a drain takes place at or after a
  given time, and the times at which a path was released.
\<close>

fun notify_times :: "string \<Rightarrow> action list \<Rightarrow> real list" where
  "notify_times p [] = []"
| "notify_times p (Notify fs q t # acts) =
     (if q = p then t # notify_times p acts else notify_times p acts)"
| "notify_times p (Drain fs post t # acts) = notify_times p acts"

fun notified_in :: "string \<Rightarrow> action list \<Rightarrow> node list" where
  "notified_in p [] = []"
| "notified_in p (Notify fs q t # acts) =
     (if q = p then fs # notified_in p acts else notified_in p acts)"
| "notified_in p (Drain fs post t # acts) = notified_in p acts"

fun drain_due :: "real \<Rightarrow> action list \<Rightarrow> bool" where
  "drain_due bound [] = False"
| "drain_due bound (Notify fs q t # acts) = drain_due bound acts"
| "drain_due bound (Drain fs post t # acts) = (bound \<le> t \<or> drain_due bound acts)"

definition release_times :: "string \<Rightarrow> (real \<times> string) list \<Rightarrow> real list" where
  "release_times p releases = map fst (filter (\<lambda>r. snd r = p) releases)"

text \<open>
  Debounce coalescing, in the words of the specification: at most one release, none
  sooner than \<open>bound\<close>, and one if a drain is due.
\<close>

definition coalesced :: "real list \<Rightarrow> real \<Rightarrow> bool \<Rightarrow> bool" where
  "coalesced rs bound due =
     (length rs \<le> 1 \<and> list_all (\<lambda>t. bound \<le> t) rs \<and> (due \<longrightarrow> rs \<noteq> []))"

section \<open>A concrete folder\<close>

text \<open>
  A small instance used to run the definitions: stand-ins for the library functions
  (a pattern \<^verbatim>\<open>*suffix\<close> matches the names ending in the suffix; a time stamp is
  converted when its year lies in 1 to 9999, and \<^verbatim>\<open>ValueError\<close> is raised
  otherwise), and a tree with the folder \<^verbatim>\<open>/ragflow/mounted_data/docs\<close>, which holds
  four text files, one of which cannot be opened, and one log file, beside a directory
  that cannot be listed.
\<close>

definition round_half_even :: "real \<Rightarrow> int" where
  "round_half_even x =
     (let f = \<lfloor>x\<rfloor>; d = x - of_int f
      in if d < 1 / 2 then f
         else if 1 / 2 < d then f + 1
         else if even f then f else f + 1)"

definition ex_fromtimestamp :: "real \<Rightarrow> exn + datetime" where
  "ex_fromtimestamp t =
     (let us = round_half_even (t * 1000000)
      in if - 62135596800000000 \<le> us \<and> us < 253402300800000000 then Inr us
         else Inl ValueError)"

definition ex_lib :: pylib where
  "ex_lib =
     \<lparr>fnmatch = (\<lambda>name pat. startswith pat ''*'' \<and> endswith name (drop 1 pat)),
      relpath = (\<lambda>p start. drop (Suc (length start)) p),
      md5_hex = (\<lambda>s. ''md5:'' @ s),
      guess_type = (\<lambda>p. if endswith p ''.txt'' then Some ''text/plain'' else None),
      get_file_ext = (\<lambda>p. if endswith p ''.txt'' then ''.txt'' else ''''),
      local_folder_source = ''local_folder'',
      fromtimestamp = ex_fromtimestamp,
      fromtimestamp_local = ex_fromtimestamp\<rparr>"

definition ex_file :: "string \<Rightarrow> real \<Rightarrow> node" where
  "ex_file content mtime =
     File \<lparr>fdata = Some (encode content),
           fstat = Some \<lparr>st_size = length content, st_mtime = mtime,
                         st_ctime = mtime, st_uid = 1000\<rparr>\<rparr>"

definition ex_unreadable :: "real \<Rightarrow> node" where
  "ex_unreadable mtime =
     File \<lparr>fdata = None,
           fstat = Some \<lparr>st_size = 0, st_mtime = mtime, st_ctime = mtime, st_uid = 0\<rparr>\<rparr>"

definition ex_fs :: node where
  "ex_fs =
     Dir True [(''ragflow'', Dir True [(''mounted_data'', Dir True
       [(''docs'', Dir True
           [(''a.txt'', ex_file ''hello'' 100),
            (''b.log'', ex_file ''world'' 200),
            (''c.txt'', ex_file ''third'' 300),
            (''locked.txt'', ex_unreadable 400),
            (''d.txt'', ex_file ''fourth'' 500)]),
        (''private'', Dir False [])])])]"

definition ex_conn :: connector where
  "ex_conn =
     \<lparr>folder_path = ''/ragflow/mounted_data/docs'',
      recursive = True,
      file_patterns = [''*.txt''],
      compute_hash = False,
      batch_size = 2,
      allowed_base_path = ''/ragflow/mounted_data''\<rparr>"

definition ex_handler :: handler where
  "ex_handler =
     \<lparr>ragflow_url = ''http://localhost:9380'',
      api_key = ''secret'',
      connector_id = ''kb1'',
      w_folder_path = ''/ragflow/mounted_data/docs'',
      w_file_patterns = [''*.txt''],
      debounce_seconds = 2,
      file_hashes = Map.empty,
      pending_changes = []\<rparr>"

text \<open>The same tree after \<^verbatim>\<open>a.txt\<close> has been deleted.\<close>

definition ex_fs_deleted :: node where
  "ex_fs_deleted =
     Dir True [(''ragflow'', Dir True [(''mounted_data'', Dir True
       [(''docs'', Dir True
           [(''b.log'', ex_file ''world'' 200),
            (''c.txt'', ex_file ''third'' 300),
            (''locked.txt'', ex_unreadable 400),
            (''d.txt'', ex_file ''fourth'' 500)]),
        (''private'', Dir False [])])])]"

text \<open>
  A run on the text file that cannot be opened: two notifications one second apart and
  the drains of the main loop, with a debounce time of two seconds.
\<close>

definition ex_trace :: "action list" where
  "ex_trace =
     [Notify ex_fs ''/ragflow/mounted_data/docs/locked.txt'' 0,
      Drain ex_fs (\<lambda>req. HttpResponse 200) 1,
      Notify ex_fs ''/ragflow/mounted_data/docs/locked.txt'' 1,
      Drain ex_fs (\<lambda>req. HttpResponse 200) 2,
      Drain ex_fs (\<lambda>req. HttpResponse 200) 3,
      Drain ex_fs (\<lambda>req. HttpResponse 200) 4]"

section \<open>Batching\<close>

lemma pib_concat:
  "concat (process_in_batches mk K files batch) = batch @ created_documents mk files"
  by (induction files arbitrary: batch)
     (auto simp: created_documents_def Let_def split: sum.splits)

lemma pib_bounds:
  "int (length batch) < max 1 K \<Longrightarrow> b \<in> set (process_in_batches mk K files batch)
     \<Longrightarrow> b \<noteq> [] \<and> int (length b) \<le> max 1 K"
proof (induction files arbitrary: batch)
  case Nil
  then show ?case by (auto split: if_splits)
next
  case (Cons p ps)
  show ?case
  proof (cases "mk p")
    case (Inl e)
    with Cons show ?thesis by simp
  next
    case (Inr doc)
    show ?thesis
    proof (cases "int (length (batch @ [doc])) \<ge> K")
      case True
      with Inr Cons.prems have "b = batch @ [doc] \<or> b \<in> set (process_in_batches mk K ps [])"
        by (simp add: Let_def)
      then show ?thesis
      proof
        assume "b = batch @ [doc]"
        with Cons.prems show ?thesis by simp
      next
        assume "b \<in> set (process_in_batches mk K ps [])"
        with Cons.IH [of "[]"] show ?thesis by simp
      qed
    next
      case False
      with Inr Cons.prems have "b \<in> set (process_in_batches mk K ps (batch @ [doc]))"
        by (simp add: Let_def)
      with Cons.IH [of "batch @ [doc]"] False show ?thesis by simp
    qed
  qed
qed

lemma pib_nonempty_any:
  "b \<in> set (process_in_batches mk K files batch) \<Longrightarrow> b \<noteq> []"
  by (induction files arbitrary: batch)
     (auto simp: Let_def split: sum.splits if_splits)

lemma ceil_div_small: "0 < n \<Longrightarrow> n < k \<Longrightarrow> (n + k - 1) div k = (1::nat)"
proof -
  assume a: "0 < n" "n < k"
  then have e: "n + k - 1 = k + (n - 1)" by simp
  have "(k + (n - 1)) div k = (n - 1) div k + 1"
    using a by (subst div_add_self1) auto
  with a e show ?thesis by simp
qed

lemma ceil_div_step: "0 < k \<Longrightarrow> (m + k + k - 1) div k = Suc ((m + k - 1) div k)" for k :: nat
proof -
  assume a: "0 < k"
  then have e: "m + k + k - 1 = (m + k - 1) + k" by simp
  have "((m + k - 1) + k) div k = (m + k - 1) div k + 1"
    using a by (subst div_add_self2) auto
  with e show ?thesis by simp
qed

lemma ceil_div_zero: "0 < k \<Longrightarrow> (m + k - 1) div k = 0 \<Longrightarrow> m = 0" for k :: nat
  by (auto simp: div_eq_0_iff)

lemma ceiling_nat_div:
  "0 < k \<Longrightarrow> \<lceil>real m / real k\<rceil> = int ((m + k - 1) div k)"
proof -
  assume a: "0 < k"
  define q where "q = (m + k - 1) div k"
  have up: "real m \<le> real q * real k"
  proof -
    have "m + k - 1 < (q + 1) * k"
      unfolding q_def using a
      by (metis add.commute dividend_less_div_times mult.commute mult_Suc Suc_eq_plus1)
    then have "m \<le> q * k" using a by (simp add: algebra_simps)
    then show ?thesis by (metis of_nat_le_iff of_nat_mult)
  qed
  have lo: "real q * real k < real m + real k"
  proof -
    have "q * k \<le> m + k - 1" unfolding q_def by simp
    then have "q * k < m + k" using a by linarith
    then show ?thesis by (metis of_nat_less_iff of_nat_mult of_nat_add)
  qed
  have "\<lceil>real m / real k\<rceil> = int q"
  proof (rule ceiling_unique)
    show "real_of_int (int q) - 1 < real m / real k"
      using lo a by (simp add: field_simps)
    show "real m / real k \<le> real_of_int (int q)"
      using up a by (simp add: field_simps)
  qed
  then show ?thesis by (simp add: q_def)
qed

lemma pib_length:
  "0 < K \<Longrightarrow> int (length batch) < K \<Longrightarrow>
   length (process_in_batches mk K files batch)
     = (length batch + length (created_documents mk files) + nat K - 1) div nat K"
proof (induction files arbitrary: batch)
  case Nil
  show ?case
  proof (cases "batch = []")
    case True
    with Nil show ?thesis by (simp add: created_documents_def)
  next
    case False
    with Nil have "0 < length batch" "length batch < nat K" by auto
    then have "(length batch + nat K - 1) div nat K = 1"
      by (rule ceil_div_small)
    with False show ?thesis by (simp add: created_documents_def)
  qed
next
  case (Cons p ps)
  show ?case
  proof (cases "mk p")
    case (Inl e)
    with Cons show ?thesis by (simp add: created_documents_def)
  next
    case (Inr doc)
    have cd: "length (created_documents mk (p # ps)) = Suc (length (created_documents mk ps))"
      using Inr by (simp add: created_documents_def)
    show ?thesis
    proof (cases "int (length (batch @ [doc])) \<ge> K")
      case True
      with Cons.prems have eq: "Suc (length batch) = nat K" by simp
      have "length (process_in_batches mk K (p # ps) batch)
              = Suc (length (process_in_batches mk K ps []))"
        using Inr True by (simp add: Let_def)
      also have "\<dots> = Suc ((length (created_documents mk ps) + nat K - 1) div nat K)"
        using Cons.IH [of "[]"] Cons.prems by simp
      also have "\<dots> = (length batch + length (created_documents mk (p # ps)) + nat K - 1) div nat K"
      proof -
        have "length batch + length (created_documents mk (p # ps)) + nat K - 1
                = length (created_documents mk ps) + nat K + nat K - 1"
          using eq cd by simp
        moreover have "0 < nat K" using Cons.prems(1) by simp
        ultimately show ?thesis
          using ceil_div_step [of "nat K" "length (created_documents mk ps)"] by simp
      qed
      finally show ?thesis .
    next
      case False
      then have "length (process_in_batches mk K (p # ps) batch)
              = length (process_in_batches mk K ps (batch @ [doc]))"
        using Inr by (simp add: Let_def)
      also have "\<dots> = (length (batch @ [doc]) + length (created_documents mk ps) + nat K - 1) div nat K"
        using Cons.IH [of "batch @ [doc]"] Cons.prems False by simp
      finally show ?thesis using cd by simp
    qed
  qed
qed

lemma pib_butlast:
  "0 < K \<Longrightarrow> int (length batch) < K \<Longrightarrow> b \<in> set (butlast (process_in_batches mk K files batch))
     \<Longrightarrow> int (length b) = K"
proof (induction files arbitrary: batch)
  case Nil
  then show ?case by (auto split: if_splits)
next
  case (Cons p ps)
  show ?case
  proof (cases "mk p")
    case (Inl e)
    with Cons show ?thesis by simp
  next
    case (Inr doc)
    show ?thesis
    proof (cases "int (length (batch @ [doc])) \<ge> K")
      case True
      with Inr Cons.prems
      have "b = batch @ [doc] \<or> b \<in> set (butlast (process_in_batches mk K ps []))"
        by (auto simp: Let_def split: if_splits)
      then show ?thesis
      proof
        assume "b = batch @ [doc]"
        with Cons.prems True show ?thesis by simp
      next
        assume "b \<in> set (butlast (process_in_batches mk K ps []))"
        with Cons.IH [of "[]"] Cons.prems show ?thesis by simp
      qed
    next
      case False
      with Inr Cons.prems have "b \<in> set (butlast (process_in_batches mk K ps (batch @ [doc])))"
        by (simp add: Let_def)
      with Cons.IH [of "batch @ [doc]"] Cons.prems False show ?thesis by simp
    qed
  qed
qed

lemma pib_last:
  "0 < K \<Longrightarrow> int (length batch) < K \<Longrightarrow> process_in_batches mk K files batch \<noteq> [] \<Longrightarrow>
   length (last (process_in_batches mk K files batch))
     = (let m = length batch + length (created_documents mk files)
        in if m mod nat K = 0 then nat K else m mod nat K)"
proof (induction files arbitrary: batch)
  case Nil
  then show ?case by (auto simp: created_documents_def Let_def split: if_splits)
next
  case (Cons p ps)
  show ?case
  proof (cases "mk p")
    case (Inl e)
    with Cons show ?thesis by (simp add: created_documents_def)
  next
    case (Inr doc)
    have cd: "length (created_documents mk (p # ps)) = Suc (length (created_documents mk ps))"
      using Inr by (simp add: created_documents_def)
    show ?thesis
    proof (cases "int (length (batch @ [doc])) \<ge> K")
      case True
      with Cons.prems have eq: "Suc (length batch) = nat K" by simp
      have unfold: "process_in_batches mk K (p # ps) batch
              = (batch @ [doc]) # process_in_batches mk K ps []"
        using Inr True by (simp add: Let_def)
      have tot: "length batch + length (created_documents mk (p # ps))
                   = length (created_documents mk ps) + nat K"
        using eq cd by simp
      show ?thesis
      proof (cases "process_in_batches mk K ps [] = []")
        case True
        then have "length (process_in_batches mk K ps []) = 0" by simp
        then have "(length (created_documents mk ps) + nat K - 1) div nat K = 0"
          using pib_length [of K "[]" mk ps] Cons.prems by simp
        moreover have "0 < nat K" using Cons.prems(1) by simp
        ultimately have "length (created_documents mk ps) = 0"
          by (rule ceil_div_zero [rotated])
        with True unfold eq tot show ?thesis by (simp add: Let_def)
      next
        case False
        then have "length (last (process_in_batches mk K (p # ps) batch))
                  = length (last (process_in_batches mk K ps []))"
          using unfold by simp
        also have "\<dots> = (let m = length (created_documents mk ps)
                           in if m mod nat K = 0 then nat K else m mod nat K)"
          using Cons.IH [of "[]"] Cons.prems False by simp
        finally show ?thesis using tot by (simp add: Let_def)
      qed
    next
      case False
      then have unfold: "process_in_batches mk K (p # ps) batch
              = process_in_batches mk K ps (batch @ [doc])"
        using Inr by (simp add: Let_def)
      with Cons.prems have ne: "process_in_batches mk K ps (batch @ [doc]) \<noteq> []" by simp
      show ?thesis
        using Cons.IH [of "batch @ [doc]"] Cons.prems(1) False ne unfold cd
        by (simp add: Let_def)
    qed
  qed
qed


lemma bulk_run:
  assumes "list_files lib fs c st en = Inr files"
    and "st = None \<and> en = None \<and> run = load_from_state lib fs c \<or>
         (\<exists>s e. fromtimestamp lib s = Inr a \<and> fromtimestamp lib e = Inr b \<and>
                st = Some a \<and> en = Some b \<and> run = poll_source lib fs c s e)"
  shows "run = Inr (process_in_batches (create_document lib fs c) (batch_size c) files [])"
  using assms by (auto simp: load_from_state_def poll_source_def)

lemma ex_files_all:
  "list_files ex_lib ex_fs ex_conn None None =
     Inr [''/ragflow/mounted_data/docs/a.txt'', ''/ragflow/mounted_data/docs/c.txt'',
          ''/ragflow/mounted_data/docs/locked.txt'', ''/ragflow/mounted_data/docs/d.txt'']"
  by code_simp

lemma ex_files_all_zero:
  "list_files ex_lib ex_fs (ex_conn\<lparr>batch_size := 0\<rparr>) None None =
     Inr [''/ragflow/mounted_data/docs/a.txt'', ''/ragflow/mounted_data/docs/c.txt'',
          ''/ragflow/mounted_data/docs/locked.txt'', ''/ragflow/mounted_data/docs/d.txt'']"
  by code_simp

lemma ex_bounds: "fromtimestamp ex_lib 50 = Inr 50000000 \<and> fromtimestamp ex_lib 450 = Inr 450000000"
  by code_simp

lemma ex_files_window:
  "list_files ex_lib ex_fs ex_conn (Some 50000000) (Some 450000000) =
     Inr [''/ragflow/mounted_data/docs/a.txt'', ''/ragflow/mounted_data/docs/c.txt'',
          ''/ragflow/mounted_data/docs/locked.txt'']"
  by code_simp

lemma ex_created_all:
  "map doc_id (created_documents (create_document ex_lib ex_fs ex_conn)
     [''/ragflow/mounted_data/docs/a.txt'', ''/ragflow/mounted_data/docs/c.txt'',
      ''/ragflow/mounted_data/docs/locked.txt'', ''/ragflow/mounted_data/docs/d.txt''])
   = [''local_folder_md5:a.txt'', ''local_folder_md5:c.txt'', ''local_folder_md5:d.txt'']"
  by code_simp

lemma ex_created_all_zero:
  "map doc_id (created_documents (create_document ex_lib ex_fs (ex_conn\<lparr>batch_size := 0\<rparr>))
     [''/ragflow/mounted_data/docs/a.txt'', ''/ragflow/mounted_data/docs/c.txt'',
      ''/ragflow/mounted_data/docs/locked.txt'', ''/ragflow/mounted_data/docs/d.txt''])
   = [''local_folder_md5:a.txt'', ''local_folder_md5:c.txt'', ''local_folder_md5:d.txt'']"
  by code_simp

lemma ex_created_window:
  "map doc_id (created_documents (create_document ex_lib ex_fs ex_conn)
     [''/ragflow/mounted_data/docs/a.txt'', ''/ragflow/mounted_data/docs/c.txt'',
      ''/ragflow/mounted_data/docs/locked.txt''])
   = [''local_folder_md5:a.txt'', ''local_folder_md5:c.txt'']"
  by code_simp

lemma ex_batch_size: "batch_size ex_conn = 2"
  by (simp add: ex_conn_def)

text \<open>
  Claim C2 (batch completeness). Let the enumeration return, the two bounds of
  \<^verbatim>\<open>poll_source\<close> being time stamps that can be converted; let \<open>M\<close> be the number of
  documents that can be constructed for the enumerated files and let the configured
  \<^verbatim>\<open>batch_size\<close> be positive. Then \<^verbatim>\<open>load_from_state\<close> and \<^verbatim>\<open>poll_source\<close>
  return, and yield exactly \<open>\<lceil>M / batch_size\<rceil>\<close> batches; every batch but the last has
  exactly \<^verbatim>\<open>batch_size\<close> documents; the last has \<open>M mod batch_size\<close> documents, or
  \<^verbatim>\<open>batch_size\<close> when that is zero; and the batches, one after the other, are the
  constructed documents in the order of their files.
\<close>

theorem batch_completeness:
  assumes K: "0 < batch_size c"
    and files: "list_files lib fs c st en = Inr files"
    and run: "st = None \<and> en = None \<and> run = load_from_state lib fs c \<or>
              (\<exists>s e. fromtimestamp lib s = Inr a \<and> fromtimestamp lib e = Inr b \<and>
                     st = Some a \<and> en = Some b \<and> run = poll_source lib fs c s e)"
    and M: "M = length (created_documents (create_document lib fs c) files)"
  shows "\<exists>batches. run = Inr batches \<and>
           int (length batches) = \<lceil>real M / real_of_int (batch_size c)\<rceil> \<and>
           (\<forall>b \<in> set (butlast batches). int (length b) = batch_size c) \<and>
           (batches \<noteq> [] \<longrightarrow>
              int (length (last batches)) =
                (if int M mod batch_size c = 0 then batch_size c else int M mod batch_size c)) \<and>
           concat batches = created_documents (create_document lib fs c) files"
proof -
  let ?mk = "create_document lib fs c"
  let ?K = "batch_size c"
  let ?bs = "process_in_batches ?mk ?K files []"
  have r: "run = Inr ?bs" using bulk_run [OF files run] .
  have k: "0 < nat ?K" "int (nat ?K) = ?K" "real (nat ?K) = real_of_int ?K"
    using K by simp_all
  have e: "int (length ([] :: document list)) < ?K" using K by simp
  have "length ?bs = (M + nat ?K - 1) div nat ?K"
    using pib_length [OF K e, of ?mk files] M by simp
  then have n: "int (length ?bs) = \<lceil>real M / real_of_int ?K\<rceil>"
    using ceiling_nat_div [OF k(1), of M] k(3) by simp
  have b: "\<forall>b \<in> set (butlast ?bs). int (length b) = ?K"
    using pib_butlast [OF K e] by blast
  have md: "int (M mod nat ?K) = int M mod ?K"
    using k(2) by (simp add: zmod_int)
  have l: "?bs \<noteq> [] \<longrightarrow> int (length (last ?bs)) =
             (if int M mod ?K = 0 then ?K else int M mod ?K)"
  proof
    assume ne: "?bs \<noteq> []"
    have "length (last ?bs) = (if M mod nat ?K = 0 then nat ?K else M mod nat ?K)"
      using pib_last [OF K e ne] M by (simp add: Let_def)
    then show "int (length (last ?bs)) = (if int M mod ?K = 0 then ?K else int M mod ?K)"
      using md k(2) by (auto split: if_splits)
  qed
  have cc: "concat ?bs = created_documents ?mk files"
    using pib_concat [of ?mk ?K files "[]"] by simp
  show ?thesis using r n b l cc by blast
qed

theorem batch_completeness_witness:
  "(\<exists>batches. load_from_state ex_lib ex_fs ex_conn = Inr batches \<and>
      int (length batches) = \<lceil>real (3::nat) / real_of_int (batch_size ex_conn)\<rceil> \<and>
      (\<forall>b \<in> set (butlast batches). int (length b) = batch_size ex_conn) \<and>
      (batches \<noteq> [] \<longrightarrow>
         int (length (last batches)) =
           (if int 3 mod batch_size ex_conn = 0 then batch_size ex_conn
            else int 3 mod batch_size ex_conn)) \<and>
      concat batches = created_documents (create_document ex_lib ex_fs ex_conn)
        [''/ragflow/mounted_data/docs/a.txt'', ''/ragflow/mounted_data/docs/c.txt'',
         ''/ragflow/mounted_data/docs/locked.txt'', ''/ragflow/mounted_data/docs/d.txt'']) \<and>
   (\<exists>batches. poll_source ex_lib ex_fs ex_conn 50 450 = Inr batches \<and>
      int (length batches) = \<lceil>real (2::nat) / real_of_int (batch_size ex_conn)\<rceil> \<and>
      (\<forall>b \<in> set (butlast batches). int (length b) = batch_size ex_conn) \<and>
      (batches \<noteq> [] \<longrightarrow>
         int (length (last batches)) =
           (if int 2 mod batch_size ex_conn = 0 then batch_size ex_conn
            else int 2 mod batch_size ex_conn)) \<and>
      concat batches = created_documents (create_document ex_lib ex_fs ex_conn)
        [''/ragflow/mounted_data/docs/a.txt'', ''/ragflow/mounted_data/docs/c.txt'',
         ''/ragflow/mounted_data/docs/locked.txt''])"
proof -
  have K: "0 < batch_size ex_conn" by (simp add: ex_batch_size)
  have M: "(3::nat) = length (created_documents (create_document ex_lib ex_fs ex_conn)
        [''/ragflow/mounted_data/docs/a.txt'', ''/ragflow/mounted_data/docs/c.txt'',
         ''/ragflow/mounted_data/docs/locked.txt'', ''/ragflow/mounted_data/docs/d.txt''])"
    using arg_cong [OF ex_created_all, of length] by simp
  have R: "None = (None :: datetime option) \<and> None = (None :: datetime option) \<and>
             load_from_state ex_lib ex_fs ex_conn = load_from_state ex_lib ex_fs ex_conn \<or>
           (\<exists>s e. fromtimestamp ex_lib s = Inr 0 \<and> fromtimestamp ex_lib e = Inr 0 \<and>
              None = Some (0 :: datetime) \<and> None = Some (0 :: datetime) \<and>
              load_from_state ex_lib ex_fs ex_conn = poll_source ex_lib ex_fs ex_conn s e)"
    by simp
  have M': "(2::nat) = length (created_documents (create_document ex_lib ex_fs ex_conn)
        [''/ragflow/mounted_data/docs/a.txt'', ''/ragflow/mounted_data/docs/c.txt'',
         ''/ragflow/mounted_data/docs/locked.txt''])"
    using arg_cong [OF ex_created_window, of length] by simp
  have R': "Some (50000000 :: datetime) = None \<and> Some (450000000 :: datetime) = None \<and>
             poll_source ex_lib ex_fs ex_conn 50 450 = load_from_state ex_lib ex_fs ex_conn \<or>
           (\<exists>s e. fromtimestamp ex_lib s = Inr 50000000 \<and>
              fromtimestamp ex_lib e = Inr 450000000 \<and>
              Some (50000000 :: datetime) = Some 50000000 \<and>
              Some (450000000 :: datetime) = Some 450000000 \<and>
              poll_source ex_lib ex_fs ex_conn 50 450 = poll_source ex_lib ex_fs ex_conn s e)"
    using ex_bounds by blast
  show ?thesis
    using batch_completeness [OF K ex_files_all R M]
          batch_completeness [OF K ex_files_window R' M']
    by (rule conjI)
qed

text \<open>
  Claim C10 (amended: batches are non-empty and bounded by \<^verbatim>\<open>batch_size\<close> or one).
  Whenever the enumeration returns, \<^verbatim>\<open>load_from_state\<close> and \<^verbatim>\<open>poll_source\<close>
  return; every batch they yield is non-empty and holds at most \<^verbatim>\<open>batch_size\<close>
  documents when \<^verbatim>\<open>batch_size\<close> is positive, and exactly one document when it is
  zero or negative, which the constructor does not rule out; the batches hold exactly
  the documents that could be constructed, so a file whose document fails contributes
  nothing and stops nothing; and there is no batch at all exactly when no document could
  be constructed.
\<close>

theorem batches_nonempty_bounded:
  assumes files: "list_files lib fs c st en = Inr files"
    and run: "st = None \<and> en = None \<and> run = load_from_state lib fs c \<or>
              (\<exists>s e. fromtimestamp lib s = Inr a \<and> fromtimestamp lib e = Inr b \<and>
                     st = Some a \<and> en = Some b \<and> run = poll_source lib fs c s e)"
  shows "\<exists>batches. run = Inr batches \<and>
           (\<forall>b \<in> set batches. b \<noteq> [] \<and> int (length b) \<le> max 1 (batch_size c)) \<and>
           (batch_size c \<le> 0 \<longrightarrow> (\<forall>b \<in> set batches. length b = 1)) \<and>
           concat batches = created_documents (create_document lib fs c) files \<and>
           (batches = []) = (created_documents (create_document lib fs c) files = [])"
proof -
  let ?mk = "create_document lib fs c"
  let ?bs = "process_in_batches ?mk (batch_size c) files []"
  have r: "run = Inr ?bs" using bulk_run [OF files run] .
  have e: "int (length ([] :: document list)) < max 1 (batch_size c)" by simp
  have b: "\<forall>b \<in> set ?bs. b \<noteq> [] \<and> int (length b) \<le> max 1 (batch_size c)"
    using pib_bounds [OF e] by blast
  have o: "batch_size c \<le> 0 \<longrightarrow> (\<forall>b \<in> set ?bs. length b = 1)"
  proof (intro impI ballI)
    fix b assume k: "batch_size c \<le> 0" and m: "b \<in> set ?bs"
    with b have "b \<noteq> []" "int (length b) \<le> 1" by auto
    then show "length b = 1" by (cases b) auto
  qed
  have cc: "concat ?bs = created_documents ?mk files"
    using pib_concat [of ?mk "batch_size c" files "[]"] by simp
  have "(?bs = []) = (concat ?bs = [])"
    using b by (cases ?bs) auto
  with r b o cc show ?thesis by auto
qed

theorem batches_nonempty_bounded_witness:
  "(\<exists>batches. poll_source ex_lib ex_fs ex_conn 50 450 = Inr batches \<and>
      (\<forall>b \<in> set batches. b \<noteq> [] \<and> int (length b) \<le> max 1 (batch_size ex_conn)) \<and>
      concat batches = created_documents (create_document ex_lib ex_fs ex_conn)
        [''/ragflow/mounted_data/docs/a.txt'', ''/ragflow/mounted_data/docs/c.txt'',
         ''/ragflow/mounted_data/docs/locked.txt'']) \<and>
   (\<exists>batches. load_from_state ex_lib ex_fs (ex_conn\<lparr>batch_size := 0\<rparr>) = Inr batches \<and>
      (\<forall>b \<in> set batches. length b = 1) \<and> batches \<noteq> [])"
proof -
  have R: "Some (50000000 :: datetime) = None \<and> Some (450000000 :: datetime) = None \<and>
             poll_source ex_lib ex_fs ex_conn 50 450 = load_from_state ex_lib ex_fs ex_conn \<or>
           (\<exists>s e. fromtimestamp ex_lib s = Inr 50000000 \<and>
              fromtimestamp ex_lib e = Inr 450000000 \<and>
              Some (50000000 :: datetime) = Some 50000000 \<and>
              Some (450000000 :: datetime) = Some 450000000 \<and>
              poll_source ex_lib ex_fs ex_conn 50 450 = poll_source ex_lib ex_fs ex_conn s e)"
    using ex_bounds by blast
  have R0: "None = (None :: datetime option) \<and> None = (None :: datetime option) \<and>
             load_from_state ex_lib ex_fs (ex_conn\<lparr>batch_size := 0\<rparr>)
               = load_from_state ex_lib ex_fs (ex_conn\<lparr>batch_size := 0\<rparr>) \<or>
           (\<exists>s e. fromtimestamp ex_lib s = Inr 0 \<and> fromtimestamp ex_lib e = Inr 0 \<and>
              None = Some (0 :: datetime) \<and> None = Some (0 :: datetime) \<and>
              load_from_state ex_lib ex_fs (ex_conn\<lparr>batch_size := 0\<rparr>)
                = poll_source ex_lib ex_fs (ex_conn\<lparr>batch_size := 0\<rparr>) s e)"
    by simp
  have z: "batch_size (ex_conn\<lparr>batch_size := 0\<rparr>) \<le> 0" by simp
  have ne: "created_documents (create_document ex_lib ex_fs (ex_conn\<lparr>batch_size := 0\<rparr>))
        [''/ragflow/mounted_data/docs/a.txt'', ''/ragflow/mounted_data/docs/c.txt'',
         ''/ragflow/mounted_data/docs/locked.txt'', ''/ragflow/mounted_data/docs/d.txt''] \<noteq> []"
    using ex_created_all_zero by auto
  have "\<exists>batches. poll_source ex_lib ex_fs ex_conn 50 450 = Inr batches \<and>
      (\<forall>b \<in> set batches. b \<noteq> [] \<and> int (length b) \<le> max 1 (batch_size ex_conn)) \<and>
      concat batches = created_documents (create_document ex_lib ex_fs ex_conn)
        [''/ragflow/mounted_data/docs/a.txt'', ''/ragflow/mounted_data/docs/c.txt'',
         ''/ragflow/mounted_data/docs/locked.txt'']"
    using batches_nonempty_bounded [OF ex_files_window R] by blast
  moreover have "\<exists>batches. load_from_state ex_lib ex_fs (ex_conn\<lparr>batch_size := 0\<rparr>) = Inr batches \<and>
      (\<forall>b \<in> set batches. length b = 1) \<and> batches \<noteq> []"
    using batches_nonempty_bounded [OF ex_files_all_zero R0] z ne by blast
  ultimately show ?thesis by (rule conjI)
qed

theorem batch_exceeds_batch_size_zero:
  "\<not> (\<forall>lib fs c batches. load_from_state lib fs c = Inr batches \<longrightarrow>
         (\<forall>b \<in> set batches. b \<noteq> [] \<and> int (length b) \<le> batch_size c))"
proof
  assume a: "\<forall>lib fs c batches. load_from_state lib fs c = Inr batches \<longrightarrow>
         (\<forall>b \<in> set batches. b \<noteq> [] \<and> int (length b) \<le> batch_size c)"
  let ?c = "ex_conn\<lparr>batch_size := 0\<rparr>"
  let ?files = "[''/ragflow/mounted_data/docs/a.txt'', ''/ragflow/mounted_data/docs/c.txt'',
         ''/ragflow/mounted_data/docs/locked.txt'', ''/ragflow/mounted_data/docs/d.txt'']"
  let ?bs = "process_in_batches (create_document ex_lib ex_fs ?c) (batch_size ?c) ?files []"
  have r: "load_from_state ex_lib ex_fs ?c = Inr ?bs"
    using ex_files_all_zero by (simp only: load_from_state_def sum.case)
  with a have all: "\<forall>b \<in> set ?bs. b \<noteq> [] \<and> int (length b) \<le> batch_size ?c" by blast
  have cc: "concat ?bs = created_documents (create_document ex_lib ex_fs ?c) ?files"
    using pib_concat [of "create_document ex_lib ex_fs ?c" "batch_size ?c" ?files "[]"]
    by (simp only: append_Nil)
  have ne: "created_documents (create_document ex_lib ex_fs ?c) ?files \<noteq> []"
    using ex_created_all_zero by auto
  have "concat ?bs \<noteq> []" unfolding cc by (rule ne)
  then obtain b where b: "b \<in> set ?bs" by (cases ?bs) auto
  with all have "b \<noteq> []" "int (length b) \<le> batch_size ?c" by blast+
  then show False by simp
qed

section \<open>Construction and the allowed base path\<close>

lemma init_fails_iff:
  "(connector_init cwd fpath rec pats hashing bsize base = Inl ConnectorValidationError)
     = (\<not> startswith (abspath cwd fpath) (abspath cwd base))"
  by (simp add: connector_init_def Let_def)

lemma init_rejects_dotdot:
  "connector_init ''/'' ''/ragflow/mounted_data/../secrets'' True None True 2
     ''/ragflow/mounted_data'' = Inl ConnectorValidationError"
  by code_simp

text \<open>
  Claim C8 (construction fails exactly for paths outside the allowed base). The code
  compares the two normalised paths as strings: the folder
  \<^verbatim>\<open>/ragflow/mounted_data_evil\<close> is a sibling of the allowed base
  \<^verbatim>\<open>/ragflow/mounted_data\<close>, not inside it, and construction succeeds for it.
\<close>

theorem init_accepts_sibling_of_base:
  "connector_init ''/'' ''/ragflow/mounted_data_evil'' True None True 2
     ''/ragflow/mounted_data''
   = Inr \<lparr>folder_path = ''/ragflow/mounted_data_evil'',
           recursive = True,
           file_patterns = [],
           compute_hash = True,
           batch_size = 2,
           allowed_base_path = ''/ragflow/mounted_data''\<rparr>"
  by code_simp

section \<open>Enumeration\<close>

lemma walk_swallows_root_failure:
  "scandir fs (folder_path c) = Inl e \<Longrightarrow> recursive c
     \<Longrightarrow> list_files lib fs c start_time end_time = Inr []"
  by (auto simp: list_files_def os_walk_def scandir_def
           split: option.splits node.splits if_splits)

lemma scan_raises_root_failure:
  "scandir fs (folder_path c) = Inl e \<Longrightarrow> \<not> recursive c
     \<Longrightarrow> list_files lib fs c start_time end_time = Inl ConnectorValidationError"
  by (simp add: list_files_def)

text \<open>
  Claim C7 (a read failure on the root fails the enumeration in both modes). The
  directory \<^verbatim>\<open>/ragflow/mounted_data/private\<close> cannot be listed. The top-level scan
  raises \<^verbatim>\<open>ConnectorValidationError\<close> for it; the recursive walk returns the empty
  list of files, with no error.
\<close>

theorem recursive_listing_hides_unreadable_root:
  "scandir ex_fs ''/ragflow/mounted_data/private'' = Inl OSError \<and>
   list_files ex_lib ex_fs
     (ex_conn\<lparr>folder_path := ''/ragflow/mounted_data/private'', recursive := False\<rparr>)
     None None = Inl ConnectorValidationError \<and>
   list_files ex_lib ex_fs
     (ex_conn\<lparr>folder_path := ''/ragflow/mounted_data/private'', recursive := True\<rparr>)
     None None = Inr []"
  by code_simp

lemma mtime_failure_skips_entry:
  "getmtime fs file_path = Inl OSError \<Longrightarrow> start_time \<noteq> None \<or> end_time \<noteq> None
     \<Longrightarrow> should_include_file lib c file_path
     \<Longrightarrow> keep_walked lib fs c start_time end_time file_path = Inr False"
  by (simp add: keep_walked_def mtime_passes_def)

section \<open>Repeated bulk runs\<close>

lemma create_document_source_path:
  "create_document lib fs c file_path = Inr doc \<Longrightarrow> source_path (metadata doc) = file_path"
  unfolding create_document_def Let_def
  by (simp split: sum.splits if_splits) auto

lemma created_documents_sources:
  "(\<And>p doc. mk p = Inr doc \<Longrightarrow> source_path (metadata doc) = p) \<Longrightarrow>
     map (\<lambda>doc. source_path (metadata doc)) (created_documents mk files)
       = filter (\<lambda>p. \<not> isl (mk p)) files"
proof (induction files)
  case Nil
  then show ?case by (simp add: created_documents_def)
next
  case (Cons p ps)
  have ih: "map (\<lambda>doc. source_path (metadata doc)) (created_documents mk ps)
       = filter (\<lambda>p. \<not> isl (mk p)) ps"
    using Cons by blast
  show ?case
  proof (cases "mk p")
    case (Inl e)
    then have "created_documents mk (p # ps) = created_documents mk ps"
      by (simp add: created_documents_def)
    with Inl ih show ?thesis by simp
  next
    case (Inr doc)
    then have "created_documents mk (p # ps) = doc # created_documents mk ps"
      by (simp add: created_documents_def)
    with Inr ih Cons.prems [OF Inr] show ?thesis by simp
  qed
qed

lemma ex_constructible_each:
  "\<not> isl (create_document ex_lib ex_fs ex_conn ''/ragflow/mounted_data/docs/a.txt'') \<and>
   \<not> isl (create_document ex_lib ex_fs ex_conn ''/ragflow/mounted_data/docs/c.txt'') \<and>
   isl (create_document ex_lib ex_fs ex_conn ''/ragflow/mounted_data/docs/locked.txt'') \<and>
   \<not> isl (create_document ex_lib ex_fs ex_conn ''/ragflow/mounted_data/docs/d.txt'')"
  by code_simp

lemma ex_constructible:
  "filter (\<lambda>p. \<not> isl (create_document ex_lib ex_fs ex_conn p))
     [''/ragflow/mounted_data/docs/a.txt'', ''/ragflow/mounted_data/docs/c.txt'',
      ''/ragflow/mounted_data/docs/locked.txt'', ''/ragflow/mounted_data/docs/d.txt'']
   = [''/ragflow/mounted_data/docs/a.txt'', ''/ragflow/mounted_data/docs/c.txt'',
      ''/ragflow/mounted_data/docs/d.txt'']"
  using ex_constructible_each by (simp only: filter.simps if_True if_False not_not simp_thms)

text \<open>
  Claim C9 (amended). \<^verbatim>\<open>load_from_state\<close> keeps no record of what it has emitted:
  whenever the enumeration returns, a run yields batches which, one after the other, are
  the documents constructed for the enumerated files, in enumeration order: one document,
  carrying the path of its file, for each file whose document can be constructed, and
  none for the others. The result depends on the tree and the configuration alone, so a
  run over an unchanged tree emits no document only if none can be constructed.
\<close>

theorem bulk_run_emits_every_document:
  assumes "list_files lib fs c None None = Inr files"
  shows "\<exists>batches. load_from_state lib fs c = Inr batches \<and>
           concat batches = created_documents (create_document lib fs c) files \<and>
           map (\<lambda>doc. source_path (metadata doc)) (concat batches)
             = filter (\<lambda>p. \<not> isl (create_document lib fs c p)) files \<and>
           (concat batches = []) = (\<forall>p \<in> set files. isl (create_document lib fs c p))"
proof -
  let ?mk = "create_document lib fs c"
  let ?bs = "process_in_batches ?mk (batch_size c) files []"
  have r: "load_from_state lib fs c = Inr ?bs"
    using assms by (simp add: load_from_state_def)
  have cc: "concat ?bs = created_documents ?mk files"
    using pib_concat [of ?mk "batch_size c" files "[]"] by (simp only: append_Nil)
  have m: "map (\<lambda>doc. source_path (metadata doc)) (created_documents ?mk files)
             = filter (\<lambda>p. \<not> isl (?mk p)) files"
    by (rule created_documents_sources) (rule create_document_source_path)
  have "(created_documents ?mk files = [])
          = (map (\<lambda>doc. source_path (metadata doc)) (created_documents ?mk files) = [])"
    by simp
  also have "\<dots> = (filter (\<lambda>p. \<not> isl (?mk p)) files = [])" by (simp only: m)
  also have "\<dots> = (\<forall>p \<in> set files. isl (?mk p))" by (simp add: filter_empty_conv)
  finally have z: "(created_documents ?mk files = []) = (\<forall>p \<in> set files. isl (?mk p))" .
  have "concat ?bs = created_documents ?mk files \<and>
           map (\<lambda>doc. source_path (metadata doc)) (concat ?bs)
             = filter (\<lambda>p. \<not> isl (?mk p)) files \<and>
           (concat ?bs = []) = (\<forall>p \<in> set files. isl (?mk p))"
    unfolding cc by (intro conjI refl m z)
  with r show ?thesis by blast
qed

theorem bulk_run_emits_every_document_witness:
  "\<exists>batches. load_from_state ex_lib ex_fs ex_conn = Inr batches \<and>
      map (\<lambda>doc. source_path (metadata doc)) (concat batches)
        = [''/ragflow/mounted_data/docs/a.txt'', ''/ragflow/mounted_data/docs/c.txt'',
           ''/ragflow/mounted_data/docs/d.txt'']"
proof -
  obtain batches where r: "load_from_state ex_lib ex_fs ex_conn = Inr batches"
    and m: "map (\<lambda>doc. source_path (metadata doc)) (concat batches)
             = filter (\<lambda>p. \<not> isl (create_document ex_lib ex_fs ex_conn p))
                 [''/ragflow/mounted_data/docs/a.txt'', ''/ragflow/mounted_data/docs/c.txt'',
                  ''/ragflow/mounted_data/docs/locked.txt'', ''/ragflow/mounted_data/docs/d.txt'']"
    using bulk_run_emits_every_document [OF ex_files_all] by blast
  from m have m': "map (\<lambda>doc. source_path (metadata doc)) (concat batches)
        = [''/ragflow/mounted_data/docs/a.txt'', ''/ragflow/mounted_data/docs/c.txt'',
           ''/ragflow/mounted_data/docs/d.txt'']"
    by (simp only: ex_constructible)
  show ?thesis by (rule exI [of _ batches], rule conjI, rule r, rule m')
qed

theorem second_bulk_run_emits_again:
  "\<not> (\<forall>lib fs c first second.
         load_from_state lib fs c = Inr first \<and> load_from_state lib fs c = Inr second
           \<longrightarrow> concat second = [])"
proof
  assume a: "\<forall>lib fs c first second.
         load_from_state lib fs c = Inr first \<and> load_from_state lib fs c = Inr second
           \<longrightarrow> concat second = []"
  let ?files = "[''/ragflow/mounted_data/docs/a.txt'', ''/ragflow/mounted_data/docs/c.txt'',
       ''/ragflow/mounted_data/docs/locked.txt'', ''/ragflow/mounted_data/docs/d.txt'']"
  let ?bs = "process_in_batches (create_document ex_lib ex_fs ex_conn) (batch_size ex_conn)
               ?files []"
  have r: "load_from_state ex_lib ex_fs ex_conn = Inr ?bs"
    by (simp add: load_from_state_def ex_files_all)
  with a have e: "concat ?bs = []" by blast
  have "concat ?bs = created_documents (create_document ex_lib ex_fs ex_conn) ?files"
    using pib_concat [of "create_document ex_lib ex_fs ex_conn" "batch_size ex_conn" ?files "[]"]
    by (simp only: append_Nil)
  with e have "created_documents (create_document ex_lib ex_fs ex_conn) ?files = []"
    by (simp only:)
  then show False using ex_created_all by simp
qed

section \<open>Content fingerprints\<close>

lemma absorb_append:
  "absorb hs (bs @ cs) = (case absorb hs bs of (hs', rest) \<Rightarrow> absorb hs' (rest @ cs))"
proof (induction hs bs rule: absorb.induct)
  case (1 hs bs)
  show ?case
  proof (cases "64 \<le> length bs")
    case True
    then have "absorb hs (bs @ cs) = absorb (compress hs (take 64 bs)) (drop 64 bs @ cs)"
      by (subst absorb.simps) simp
    also have "\<dots> = (case absorb (compress hs (take 64 bs)) (drop 64 bs) of
                        (hs', rest) \<Rightarrow> absorb hs' (rest @ cs))"
      using 1 True by simp
    also have "absorb (compress hs (take 64 bs)) (drop 64 bs) = absorb hs bs"
      using True by (subst (2) absorb.simps) simp
    finally show ?thesis .
  next
    case False
    then have "absorb hs bs = (hs, bs)" by (subst absorb.simps) simp
    then show ?thesis by simp
  qed
qed

lemma sha256_update_append:
  "sha256_update (sha256_update s a) b = sha256_update s (a @ b)"
proof -
  obtain hs rest where r: "absorb (chain s) (buffer s @ a) = (hs, rest)"
    by (cases "absorb (chain s) (buffer s @ a)")
  have "absorb (chain s) ((buffer s @ a) @ b) = absorb hs (rest @ b)"
    by (subst absorb_append) (simp add: r)
  then show ?thesis
    by (simp add: sha256_update_def r add.assoc split: prod.splits)
qed

lemma sha256_update_new_Nil: "sha256_update sha256_new [] = sha256_new"
  by (simp add: sha256_update_def sha256_new_def absorb.simps)

lemma hash_blocks_update:
  "unread \<noteq> [] \<Longrightarrow> hash_blocks h unread = sha256_update h unread"
proof (induction h unread rule: hash_blocks.induct)
  case (1 h unread)
  have t: "take 4096 unread \<noteq> []" using 1(2) by simp
  show ?case
  proof (cases "drop 4096 unread = []")
    case True
    then have "take 4096 unread = unread" by simp
    moreover have "hash_blocks (sha256_update h (take 4096 unread)) (drop 4096 unread)
                     = sha256_update h (take 4096 unread)"
      using True by (subst hash_blocks.simps) simp
    ultimately show ?thesis using t by (subst hash_blocks.simps) (simp add: Let_def)
  next
    case False
    have "hash_blocks h unread
            = hash_blocks (sha256_update h (take 4096 unread)) (drop 4096 unread)"
      using t by (subst hash_blocks.simps) (simp add: Let_def)
    also have "\<dots> = sha256_update (sha256_update h (take 4096 unread)) (drop 4096 unread)"
      using 1(1) [OF refl t False] .
    also have "\<dots> = sha256_update h unread"
      by (simp add: sha256_update_append)
    finally show ?thesis .
  qed
qed

lemma hash_blocks_new: "hash_blocks sha256_new bs = sha256_update sha256_new bs"
proof (cases "bs = []")
  case True
  then show ?thesis by (subst hash_blocks.simps) (simp add: sha256_update_new_Nil)
next
  case False
  then show ?thesis by (rule hash_blocks_update)
qed

lemma w_hash_blocks_update:
  "unread \<noteq> [] \<Longrightarrow> w_hash_blocks h unread = sha256_update h unread"
proof (induction h unread rule: w_hash_blocks.induct)
  case (1 h unread)
  have t: "take 4096 unread \<noteq> []" using 1(2) by simp
  show ?case
  proof (cases "drop 4096 unread = []")
    case True
    then have "take 4096 unread = unread" by simp
    moreover have "w_hash_blocks (sha256_update h (take 4096 unread)) (drop 4096 unread)
                     = sha256_update h (take 4096 unread)"
      using True by (subst w_hash_blocks.simps) simp
    ultimately show ?thesis using t by (subst w_hash_blocks.simps) (simp add: Let_def)
  next
    case False
    have "w_hash_blocks h unread
            = w_hash_blocks (sha256_update h (take 4096 unread)) (drop 4096 unread)"
      using t by (subst w_hash_blocks.simps) (simp add: Let_def)
    also have "\<dots> = sha256_update (sha256_update h (take 4096 unread)) (drop 4096 unread)"
      using 1(1) [OF refl t False] .
    also have "\<dots> = sha256_update h unread"
      by (simp add: sha256_update_append)
    finally show ?thesis .
  qed
qed

lemma w_hash_blocks_new: "w_hash_blocks sha256_new bs = sha256_update sha256_new bs"
proof (cases "bs = []")
  case True
  then show ?thesis by (subst w_hash_blocks.simps) (simp add: sha256_update_new_Nil)
next
  case False
  then show ?thesis by (rule w_hash_blocks_update)
qed

lemma compute_file_hash_sha256:
  "open_rb fs p = Inr bs \<Longrightarrow> compute_file_hash fs p = Inr (sha256_hex bs)"
  by (simp add: compute_file_hash_def sha256_hex_def hash_blocks_new)

lemma w_compute_file_hash_sha256:
  "open_rb fs p = Inr bs \<Longrightarrow> w_compute_file_hash fs p = Inr (sha256_hex bs)"
  by (simp add: w_compute_file_hash_def sha256_hex_def w_hash_blocks_new)

lemma create_document_checksum:
  assumes "open_rb fs p = Inr bs" and "os_stat fs p = Inr st" and "compute_hash c"
    and "fromtimestamp lib (st_mtime st) = Inr mtime"
  shows "\<exists>doc. create_document lib fs c p = Inr doc \<and>
           doc_id doc = ''local_folder_'' @ sha256_hex bs \<and>
           checksum (metadata doc) = Some (sha256_hex bs) \<and>
           checksum_algorithm (metadata doc) = Some ''SHA-256''"
  using assms by (simp add: create_document_def compute_file_hash_sha256 Let_def)

text \<open>The hash object against the digest of \<^verbatim>\<open>hello\<close> that \<^verbatim>\<open>hashlib\<close> prints.\<close>

lemma sha256_hello:
  "sha256_hex (encode ''hello'')
     = ''2cf24dba5fb0a30e26e83b2ac5b9e29e1b161e5c1fa7425e73043362938b9824''"
  by code_simp

lemma ex_open_a:
  "open_rb ex_fs ''/ragflow/mounted_data/docs/a.txt'' = Inr (encode ''hello'')"
  by code_simp

lemma ex_stat_a:
  "os_stat ex_fs ''/ragflow/mounted_data/docs/a.txt''
     = Inr \<lparr>st_size = 5, st_mtime = 100, st_ctime = 100, st_uid = 1000\<rparr>"
  by code_simp

lemma ex_time_a: "fromtimestamp ex_lib 100 = Inr 100000000"
  by code_simp

lemma ex_local_time_a: "fromtimestamp_local ex_lib 100 = Inr 100000000"
  by code_simp

lemma ex_open_copy:
  "open_rb (Dir True [(''copy.bin'', ex_file ''hello'' 7)]) ''/copy.bin'' = Inr (encode ''hello'')"
  by code_simp

text \<open>
  Claim C1 (the fingerprint is the SHA-256 of the whole content). For a file that can be
  read, the connector's and the watcher's \<^verbatim>\<open>_compute_file_hash\<close>, which feed the hash
  object blocks of 4096 bytes, both return the hex digest of the hash object fed the
  whole content at once; so equal contents give equal digests, at any path and in
  either program; a document built with hashing on, for a file whose modification time
  can be converted, carries that digest as its checksum; and for the content \<^verbatim>\<open>hello\<close> the digest is the SHA-256 of \<^verbatim>\<open>hello\<close>.
\<close>

theorem fingerprint_is_sha256:
  assumes "open_rb fs p = Inr bs"
  shows "compute_file_hash fs p = Inr (sha256_hex bs) \<and>
         w_compute_file_hash fs p = Inr (sha256_hex bs) \<and>
         (\<forall>fs' p'. open_rb fs' p' = Inr bs \<longrightarrow>
            compute_file_hash fs' p' = compute_file_hash fs p \<and>
            w_compute_file_hash fs' p' = compute_file_hash fs p) \<and>
         (compute_hash c \<and> os_stat fs p = Inr st \<and>
          fromtimestamp lib (st_mtime st) = Inr mtime \<longrightarrow>
            (\<exists>doc. create_document lib fs c p = Inr doc \<and>
                   checksum (metadata doc) = Some (sha256_hex bs))) \<and>
         (bs = encode ''hello'' \<longrightarrow>
            sha256_hex bs =
              ''2cf24dba5fb0a30e26e83b2ac5b9e29e1b161e5c1fa7425e73043362938b9824'')"
proof -
  have a: "compute_file_hash fs p = Inr (sha256_hex bs)"
    using assms by (rule compute_file_hash_sha256)
  have b: "w_compute_file_hash fs p = Inr (sha256_hex bs)"
    using assms by (rule w_compute_file_hash_sha256)
  have c: "\<forall>fs' p'. open_rb fs' p' = Inr bs \<longrightarrow>
            compute_file_hash fs' p' = compute_file_hash fs p \<and>
            w_compute_file_hash fs' p' = compute_file_hash fs p"
    using a by (simp add: compute_file_hash_sha256 w_compute_file_hash_sha256)
  have d: "compute_hash c \<and> os_stat fs p = Inr st \<and>
           fromtimestamp lib (st_mtime st) = Inr mtime \<longrightarrow>
            (\<exists>doc. create_document lib fs c p = Inr doc \<and>
                   checksum (metadata doc) = Some (sha256_hex bs))"
    using create_document_checksum [OF assms, of st c lib mtime] by blast
  have e: "bs = encode ''hello'' \<longrightarrow>
            sha256_hex bs =
              ''2cf24dba5fb0a30e26e83b2ac5b9e29e1b161e5c1fa7425e73043362938b9824''"
    using sha256_hello by simp
  show ?thesis using a b c d e by blast
qed

theorem fingerprint_is_sha256_witness:
  "compute_file_hash ex_fs ''/ragflow/mounted_data/docs/a.txt''
     = Inr (sha256_hex (encode ''hello'')) \<and>
   w_compute_file_hash (Dir True [(''copy.bin'', ex_file ''hello'' 7)]) ''/copy.bin''
     = compute_file_hash ex_fs ''/ragflow/mounted_data/docs/a.txt'' \<and>
   (\<exists>doc. create_document ex_lib ex_fs (ex_conn\<lparr>compute_hash := True\<rparr>)
             ''/ragflow/mounted_data/docs/a.txt'' = Inr doc \<and>
          checksum (metadata doc) = Some (sha256_hex (encode ''hello''))) \<and>
   sha256_hex (encode ''hello'')
     = ''2cf24dba5fb0a30e26e83b2ac5b9e29e1b161e5c1fa7425e73043362938b9824''"
proof -
  have h: "compute_hash (ex_conn\<lparr>compute_hash := True\<rparr>) \<and>
           os_stat ex_fs ''/ragflow/mounted_data/docs/a.txt''
             = Inr \<lparr>st_size = 5, st_mtime = 100, st_ctime = 100, st_uid = 1000\<rparr> \<and>
           fromtimestamp ex_lib
             (st_mtime \<lparr>st_size = 5, st_mtime = 100, st_ctime = 100, st_uid = 1000\<rparr>)
             = Inr 100000000"
    using ex_stat_a ex_time_a by simp
  show ?thesis
    using fingerprint_is_sha256 [OF ex_open_a,
            of "ex_conn\<lparr>compute_hash := True\<rparr>"
               "\<lparr>st_size = 5, st_mtime = 100, st_ctime = 100, st_uid = 1000\<rparr>" ex_lib
               100000000]
          ex_open_copy h
    by blast
qed

section \<open>The watcher's sync step\<close>

lemma sync_unchanged:
  "open_rb fs p = Inr bs \<Longrightarrow> file_hashes h p = Some (sha256_hex bs)
     \<Longrightarrow> sync_file_to_ragflow lib fs post h p = (h, [])"
  by (simp add: sync_file_to_ragflow_def w_compute_file_hash_sha256)

lemma sync_changed:
  assumes "open_rb fs p = Inr bs" and "os_stat fs p = Inr st"
    and "file_hashes h p \<noteq> Some (sha256_hex bs)"
    and "fromtimestamp_local lib (st_ctime st) = Inr created_at"
    and "fromtimestamp_local lib (st_mtime st) = Inr modified_at"
  shows "\<exists>req. up_content req = bs \<and> m_checksum (up_metadata req) = sha256_hex bs \<and>
           sync_file_to_ragflow lib fs post h p =
             (if post req = HttpResponse 200
              then (h\<lparr>file_hashes := (file_hashes h)(p \<mapsto> sha256_hex bs)\<rparr>, [req])
              else (h, [req]))"
proof -
  obtain md where md: "get_file_metadata lib fs h p = Inr md" "m_checksum md = sha256_hex bs"
    using assms(1,2,4,5) by (simp add: get_file_metadata_def w_compute_file_hash_sha256)
  let ?req = "\<lparr>url = ragflow_url h @ ''/v1/document/upload'',
                up_filename = basename p,
                up_content = bs,
                kb_id = connector_id h,
                up_metadata = md,
                authorization = ''Bearer '' @ api_key h\<rparr>"
  have "sync_file_to_ragflow lib fs post h p =
          (if post ?req = HttpResponse 200
           then (h\<lparr>file_hashes := (file_hashes h)(p \<mapsto> sha256_hex bs)\<rparr>, [?req])
           else (h, [?req]))"
  proof (cases "post ?req")
    case HttpException
    then show ?thesis
      using assms md(1)
      by (simp add: sync_file_to_ragflow_def w_compute_file_hash_sha256 Let_def)
  next
    case (HttpResponse status_code)
    then show ?thesis
      using assms md(1)
      by (simp add: sync_file_to_ragflow_def w_compute_file_hash_sha256 Let_def)
  qed
  moreover have "up_content ?req = bs" "m_checksum (up_metadata ?req) = sha256_hex bs"
    using md(2) by simp_all
  ultimately show ?thesis by blast
qed

lemma sync_absent:
  "\<not> path_exists fs p \<Longrightarrow> sync_file_to_ragflow lib fs post h p = (h, [])"
  by (auto simp: sync_file_to_ragflow_def w_compute_file_hash_def open_rb_def path_exists_def
           split: option.splits node.splits)

text \<open>
  Claim C5 (unchanged means no upload, decided by the fingerprint alone). For a file that
  can be read: if the tracked fingerprint of its path equals the SHA-256 of its content,
  \<^verbatim>\<open>_sync_file_to_ragflow\<close> posts nothing and leaves the state as it was, whatever
  \<^verbatim>\<open>os.stat\<close> says of the file; if it differs (or there is none), the file is taken
  as changed, and exactly one upload of the content is posted, provided
  \<^verbatim>\<open>os.stat\<close> succeeds and its two times can be converted, whatever these times are.
\<close>

theorem unchanged_iff_same_fingerprint:
  assumes "open_rb fs p = Inr bs"
  shows "(file_hashes h p = Some (sha256_hex bs) \<longrightarrow>
            sync_file_to_ragflow lib fs post h p = (h, [])) \<and>
         (file_hashes h p \<noteq> Some (sha256_hex bs) \<and> os_stat fs p = Inr st \<and>
          fromtimestamp_local lib (st_ctime st) = Inr created_at \<and>
          fromtimestamp_local lib (st_mtime st) = Inr modified_at \<longrightarrow>
            (\<exists>req. snd (sync_file_to_ragflow lib fs post h p) = [req] \<and>
                   up_content req = bs))"
proof -
  have "file_hashes h p \<noteq> Some (sha256_hex bs) \<and> os_stat fs p = Inr st \<and>
          fromtimestamp_local lib (st_ctime st) = Inr created_at \<and>
          fromtimestamp_local lib (st_mtime st) = Inr modified_at \<longrightarrow>
            (\<exists>req. snd (sync_file_to_ragflow lib fs post h p) = [req] \<and>
                   up_content req = bs)"
  proof
    assume a: "file_hashes h p \<noteq> Some (sha256_hex bs) \<and> os_stat fs p = Inr st \<and>
          fromtimestamp_local lib (st_ctime st) = Inr created_at \<and>
          fromtimestamp_local lib (st_mtime st) = Inr modified_at"
    then obtain req where "up_content req = bs"
      and "sync_file_to_ragflow lib fs post h p =
             (if post req = HttpResponse 200
              then (h\<lparr>file_hashes := (file_hashes h)(p \<mapsto> sha256_hex bs)\<rparr>, [req])
              else (h, [req]))"
      using sync_changed [OF assms, of st h lib created_at modified_at post] by blast
    then show "\<exists>req. snd (sync_file_to_ragflow lib fs post h p) = [req] \<and>
                   up_content req = bs"
      by (cases "post req = HttpResponse 200") auto
  qed
  then show ?thesis using sync_unchanged [OF assms] by blast
qed

lemma ex_stat_times:
  "fromtimestamp_local ex_lib
     (st_ctime \<lparr>st_size = 5, st_mtime = 100, st_ctime = 100, st_uid = 1000\<rparr>) = Inr 100000000 \<and>
   fromtimestamp_local ex_lib
     (st_mtime \<lparr>st_size = 5, st_mtime = 100, st_ctime = 100, st_uid = 1000\<rparr>) = Inr 100000000"
  using ex_local_time_a by simp

lemma ex_untracked: "file_hashes ex_handler p = None"
  by (simp add: ex_handler_def)

theorem unchanged_iff_same_fingerprint_witness:
  "sync_file_to_ragflow ex_lib ex_fs (\<lambda>req. HttpResponse 200)
      (ex_handler\<lparr>file_hashes :=
         [''/ragflow/mounted_data/docs/a.txt'' \<mapsto> sha256_hex (encode ''hello'')]\<rparr>)
      ''/ragflow/mounted_data/docs/a.txt''
     = (ex_handler\<lparr>file_hashes :=
         [''/ragflow/mounted_data/docs/a.txt'' \<mapsto> sha256_hex (encode ''hello'')]\<rparr>, []) \<and>
   (\<exists>req. snd (sync_file_to_ragflow ex_lib ex_fs (\<lambda>req. HttpResponse 200) ex_handler
                 ''/ragflow/mounted_data/docs/a.txt'') = [req] \<and>
          up_content req = encode ''hello'')"
  using unchanged_iff_same_fingerprint [OF ex_open_a,
          of "ex_handler\<lparr>file_hashes :=
               [''/ragflow/mounted_data/docs/a.txt'' \<mapsto> sha256_hex (encode ''hello'')]\<rparr>"
             ex_lib "\<lambda>req. HttpResponse 200"]
        unchanged_iff_same_fingerprint [OF ex_open_a,
          of ex_handler ex_lib "\<lambda>req. HttpResponse 200"
             "\<lparr>st_size = 5, st_mtime = 100, st_ctime = 100, st_uid = 1000\<rparr>"
             100000000 100000000]
        ex_stat_a ex_stat_times ex_untracked [of "''/ragflow/mounted_data/docs/a.txt''"]
  by simp

lemma sync_cases:
  "sync_file_to_ragflow lib fs post h p = (h, []) \<or>
   (\<exists>req. post req \<noteq> HttpResponse 200 \<and> sync_file_to_ragflow lib fs post h p = (h, [req])) \<or>
   (\<exists>req fh. post req = HttpResponse 200 \<and> w_compute_file_hash fs p = Inr fh \<and>
      file_hashes h p \<noteq> Some fh \<and>
      sync_file_to_ragflow lib fs post h p
        = (h\<lparr>file_hashes := (file_hashes h)(p \<mapsto> fh)\<rparr>, [req]))"
proof (cases "w_compute_file_hash fs p")
  case (Inl e)
  then show ?thesis by (simp add: sync_file_to_ragflow_def)
next
  case (Inr fh)
  note fh = this
  show ?thesis
  proof (cases "file_hashes h p = Some fh")
    case True
    with fh show ?thesis by (simp add: sync_file_to_ragflow_def)
  next
    case False
    note ne = this
    show ?thesis
    proof (cases "get_file_metadata lib fs h p")
      case (Inl e)
      with fh ne show ?thesis by (simp add: sync_file_to_ragflow_def)
    next
      case (Inr md)
      note md = this
      show ?thesis
      proof (cases "open_rb fs p")
        case (Inl e)
        with fh ne md show ?thesis by (simp add: sync_file_to_ragflow_def)
      next
        case (Inr content)
        let ?req = "\<lparr>url = ragflow_url h @ ''/v1/document/upload'',
                      up_filename = basename p,
                      up_content = content,
                      kb_id = connector_id h,
                      up_metadata = md,
                      authorization = ''Bearer '' @ api_key h\<rparr>"
        show ?thesis
        proof (cases "post ?req")
          case HttpException
          then have "sync_file_to_ragflow lib fs post h p = (h, [?req])"
            using fh ne md Inr by (simp add: sync_file_to_ragflow_def Let_def)
          moreover have "post ?req \<noteq> HttpResponse 200" using HttpException by simp
          ultimately show ?thesis by blast
        next
          case (HttpResponse status_code)
          show ?thesis
          proof (cases "status_code = 200")
            case True
            then have "sync_file_to_ragflow lib fs post h p
                         = (h\<lparr>file_hashes := (file_hashes h)(p \<mapsto> fh)\<rparr>, [?req])"
              using fh ne md Inr HttpResponse by (simp add: sync_file_to_ragflow_def Let_def)
            moreover have "post ?req = HttpResponse 200" using HttpResponse True by simp
            ultimately show ?thesis using fh ne by blast
          next
            case False
            then have "sync_file_to_ragflow lib fs post h p = (h, [?req])"
              using fh ne md Inr HttpResponse by (simp add: sync_file_to_ragflow_def Let_def)
            moreover have "post ?req \<noteq> HttpResponse 200" using HttpResponse False by simp
            ultimately show ?thesis by blast
          qed
        qed
      qed
    qed
  qed
qed





section \<open>Debouncing\<close>

lemma sync_keeps:
  "sync_file_to_ragflow lib fs post h p = (h', reqs) \<Longrightarrow>
     pending_changes h' = pending_changes h \<and> debounce_seconds h' = debounce_seconds h \<and>
     w_file_patterns h' = w_file_patterns h"
  using sync_cases [of lib fs post h p] by (elim disjE exE conjE) auto

lemma sync_all_keeps:
  "sync_all lib fs post h ps = (h', reqs) \<Longrightarrow>
     pending_changes h' = pending_changes h \<and> debounce_seconds h' = debounce_seconds h \<and>
     w_file_patterns h' = w_file_patterns h"
proof (induction ps arbitrary: h h' reqs)
  case Nil
  then show ?case by simp
next
  case (Cons p ps)
  obtain h1 r1 where s1: "sync_file_to_ragflow lib fs post h p = (h1, r1)"
    by (cases "sync_file_to_ragflow lib fs post h p")
  obtain h2 r2 where s2: "sync_all lib fs post h1 ps = (h2, r2)"
    by (cases "sync_all lib fs post h1 ps")
  from Cons.prems s1 s2 have "h' = h2" by simp
  with sync_keeps [OF s1] Cons.IH [OF s2] show ?case by simp
qed

lemma drain_ready_eq:
  "drain_ready t D items pending tp =
     (filter (\<lambda>e. fst e \<notin> set (map fst (filter (\<lambda>e. t - snd e \<ge> real_of_int D) items))) pending,
      tp @ map fst (filter (\<lambda>e. t - snd e \<ge> real_of_int D) items))"
proof (induction items arbitrary: pending tp)
  case Nil
  then show ?case by simp
next
  case (Cons e items)
  obtain q c where e: "e = (q, c)" by (cases e)
  show ?case
    unfolding e
    by (auto simp: Cons.IH AList.delete_eq intro!: filter_cong)
qed

lemma process_pending_eq:
  assumes "process_pending_changes lib fs post t h = (h', released, reqs)"
  shows "released = map fst (filter (\<lambda>e. t - snd e \<ge> real_of_int (debounce_seconds h))
                              (pending_changes h)) \<and>
         pending_changes h' = filter (\<lambda>e. fst e \<notin> set released) (pending_changes h) \<and>
         debounce_seconds h' = debounce_seconds h \<and>
         w_file_patterns h' = w_file_patterns h"
proof -
  let ?rel = "map fst (filter (\<lambda>e. t - snd e \<ge> real_of_int (debounce_seconds h))
                              (pending_changes h))"
  let ?pend = "filter (\<lambda>e. fst e \<notin> set ?rel) (pending_changes h)"
  obtain h2 r2 where s: "sync_all lib fs post (h\<lparr>pending_changes := ?pend\<rparr>) ?rel = (h2, r2)"
    by (cases "sync_all lib fs post (h\<lparr>pending_changes := ?pend\<rparr>) ?rel")
  have "process_pending_changes lib fs post t h = (h2, ?rel, r2)"
    using s by (simp add: process_pending_changes_def drain_ready_eq)
  with assms have "h' = h2" "released = ?rel" by simp_all
  with sync_all_keeps [OF s] show ?thesis by simp
qed

lemma update_mem: "(k, v) \<in> set (AList.update k v al)"
  by (induction al) auto

lemma update_other_mem: "(p, c) \<in> set al \<Longrightarrow> q \<noteq> p \<Longrightarrow> (p, c) \<in> set (AList.update q v al)"
  by (induction al) auto

lemma update_keys: "fst ` set (AList.update k v al) = insert k (fst ` set al)"
  by (induction al) auto

lemma handle_keeps:
  "debounce_seconds (handle_file_change lib fs now h q) = debounce_seconds h \<and>
   w_file_patterns (handle_file_change lib fs now h q) = w_file_patterns h"
  by (simp add: handle_file_change_def)

lemma handle_pending:
  "pending_changes (handle_file_change lib fs now h q) = pending_changes h \<or>
   pending_changes (handle_file_change lib fs now h q) = AList.update q now (pending_changes h)"
  by (simp add: handle_file_change_def)

lemma handle_effective:
  "path_isfile fs p \<Longrightarrow> w_should_include_file lib h p \<Longrightarrow>
     pending_changes (handle_file_change lib fs now h p) = AList.update p now (pending_changes h)"
  by (auto simp: handle_file_change_def path_isfile_def path_exists_def
           split: option.splits node.splits)

lemma include_cong:
  "w_file_patterns h' = w_file_patterns h \<Longrightarrow>
     w_should_include_file lib h' p = w_should_include_file lib h p"
  by (simp add: w_should_include_file_def)

lemma release_times_append:
  "release_times p (xs @ ys) = release_times p xs @ release_times p ys"
  by (simp add: release_times_def)

lemma release_times_absent:
  "p \<notin> set released \<Longrightarrow> release_times p (map (Pair t) released) = []"
  by (induction released) (auto simp: release_times_def)

lemma release_times_present:
  "distinct released \<Longrightarrow> p \<in> set released \<Longrightarrow> release_times p (map (Pair t) released) = [t]"
proof (induction released)
  case Nil
  then show ?case by simp
next
  case (Cons q released)
  show ?case
  proof (cases "q = p")
    case True
    with Cons.prems have "p \<notin> set released" by simp
    then have "release_times p (map (Pair t) released) = []" by (rule release_times_absent)
    with True show ?thesis by (simp add: release_times_def)
  next
    case False
    with Cons show ?thesis by (simp add: release_times_def)
  qed
qed

lemma notify_times_in_acts:
  "t \<in> set (notify_times p acts) \<Longrightarrow> \<exists>a \<in> set acts. action_time a = t"
proof (induction acts)
  case Nil
  then show ?case by simp
next
  case (Cons a acts)
  then show ?case by (cases a) (auto split: if_splits)
qed

lemma sorted_notify_times:
  "sorted (map action_time acts) \<Longrightarrow> sorted (notify_times p acts)"
proof (induction acts)
  case Nil
  then show ?case by simp
next
  case (Cons a acts)
  show ?case
  proof (cases a)
    case (Notify fs q t)
    have "\<forall>t' \<in> set (notify_times p acts). t \<le> t'"
    proof
      fix t' assume "t' \<in> set (notify_times p acts)"
      then obtain b where "b \<in> set acts" "action_time b = t'"
        using notify_times_in_acts by blast
      with Cons.prems Notify show "t \<le> t'" by auto
    qed
    with Cons Notify show ?thesis by simp
  next
    case (Drain fs post t)
    with Cons show ?thesis by simp
  qed
qed

lemma run_watcher_drain:
  "process_pending_changes lib fs post t h = (h', released, reqs) \<Longrightarrow>
     snd (run_watcher lib (Drain fs post t # acts) h)
       = map (Pair t) released @ snd (run_watcher lib acts h')"
  by (simp split: prod.splits)

lemma no_release_when_idle:
  "p \<notin> fst ` set (pending_changes h) \<Longrightarrow> notify_times p acts = []
     \<Longrightarrow> release_times p (snd (run_watcher lib acts h)) = []"
proof (induction acts arbitrary: h)
  case Nil
  then show ?case by (simp add: release_times_def)
next
  case (Cons a acts)
  show ?case
  proof (cases a)
    case (Notify fs q t)
    with Cons.prems have qp: "q \<noteq> p" and nt: "notify_times p acts = []"
      by (auto split: if_splits)
    have "fst ` set (pending_changes (handle_file_change lib fs t h q))
            \<subseteq> insert q (fst ` set (pending_changes h))"
      using handle_pending [of lib fs t h q] update_keys [of q t "pending_changes h"]
      by (metis subset_insertI order_refl)
    then have "p \<notin> fst ` set (pending_changes (handle_file_change lib fs t h q))"
      using Cons.prems(1) qp by blast
    from Cons.IH [OF this nt] Notify show ?thesis by simp
  next
    case (Drain fs post t)
    obtain h' released reqs where
      pr: "process_pending_changes lib fs post t h = (h', released, reqs)"
      by (cases "process_pending_changes lib fs post t h") auto
    note e = process_pending_eq [OF pr]
    have rel: "p \<notin> set released" using e Cons.prems(1) by auto
    have "p \<notin> fst ` set (pending_changes h')" using e Cons.prems(1) by auto
    moreover have "notify_times p acts = []" using Cons.prems(2) Drain by simp
    ultimately have "release_times p (snd (run_watcher lib acts h')) = []"
      by (rule Cons.IH)
    then show ?thesis
      unfolding Drain run_watcher_drain [OF pr] release_times_append
      using release_times_absent [OF rel] by simp
  qed
qed

lemma sorted_le_last: "sorted xs \<Longrightarrow> x \<in> set xs \<Longrightarrow> x \<le> last xs" for x :: real
proof (induction xs)
  case Nil
  then show ?case by simp
next
  case (Cons y ys)
  then show ?case by (cases "ys = []") auto
qed

lemma last_ge_first: "\<forall>x \<in> set xs. c \<le> x \<Longrightarrow> c \<le> last (c # xs)" for c :: real
  by (cases "xs = []") auto

lemma notify_times_ge:
  "\<forall>a \<in> set acts. c \<le> action_time a \<Longrightarrow> \<forall>t \<in> set (notify_times p acts). c \<le> t"
  using notify_times_in_acts by fastforce

lemma released_distinct:
  assumes "process_pending_changes lib fs post t h = (h', released, reqs)"
    and "distinct (map fst (pending_changes h))"
  shows "distinct released \<and> distinct (map fst (pending_changes h'))"
  using process_pending_eq [OF assms(1)] assms(2) by (simp add: distinct_map_filter)

lemma released_iff:
  assumes "process_pending_changes lib fs post t h = (h', released, reqs)"
    and "distinct (map fst (pending_changes h))"
    and "(p, c) \<in> set (pending_changes h)"
  shows "(p \<in> set released) = (real_of_int (debounce_seconds h) \<le> t - c)"
proof
  assume "p \<in> set released"
  then obtain e where e: "e \<in> set (pending_changes h)" "fst e = p"
      "real_of_int (debounce_seconds h) \<le> t - snd e"
    using process_pending_eq [OF assms(1)] by auto
  then have "(p, snd e) \<in> set (pending_changes h)" by (metis prod.collapse)
  with assms(2,3) have "snd e = c" by (metis eq_key_imp_eq_value)
  with e(3) show "real_of_int (debounce_seconds h) \<le> t - c" by simp
next
  assume "real_of_int (debounce_seconds h) \<le> t - c"
  with assms(3) have "(p, c) \<in> set (filter (\<lambda>e. t - snd e \<ge> real_of_int (debounce_seconds h))
                              (pending_changes h))"
    by simp
  then have "fst (p, c) \<in> fst ` set (filter (\<lambda>e. t - snd e \<ge> real_of_int (debounce_seconds h))
                              (pending_changes h))"
    by (rule imageI)
  then show "p \<in> set released"
    using process_pending_eq [OF assms(1)] by simp
qed

lemma released_not_pending:
  assumes "process_pending_changes lib fs post t h = (h', released, reqs)"
    and "q \<in> set released"
  shows "q \<notin> fst ` set (pending_changes h')"
proof
  assume "q \<in> fst ` set (pending_changes h')"
  then obtain e where e: "e \<in> set (pending_changes h')" "fst e = q" by auto
  have "pending_changes h' = filter (\<lambda>e. fst e \<notin> set released) (pending_changes h)"
    using process_pending_eq [OF assms(1)] by blast
  with e(1) have "fst e \<notin> set released" by simp
  with e(2) assms(2) show False by simp
qed

lemma pending_release:
  assumes "distinct (map fst (pending_changes h))"
    and "(p, c) \<in> set (pending_changes h)"
    and "sorted (map action_time acts)"
    and "\<forall>a \<in> set acts. c \<le> action_time a"
    and "w_should_include_file lib h p"
    and "list_all (\<lambda>fs. path_isfile fs p) (notified_in p acts)"
    and "\<forall>t \<in> set (notify_times p acts). t < f + real_of_int D"
    and "f \<le> c"
    and "debounce_seconds h = D"
  shows "coalesced (release_times p (snd (run_watcher lib acts h)))
           (last (c # notify_times p acts) + real_of_int D)
           (drain_due (last (c # notify_times p acts) + real_of_int D) acts)"
  using assms
proof (induction acts arbitrary: h c)
  case Nil
  then show ?case by (simp add: coalesced_def release_times_def)
next
  case (Cons a acts)
  have s3: "sorted (map action_time acts)" using Cons.prems(3) by simp
  show ?case
  proof (cases a)
    case (Notify fs q t)
    let ?h1 = "handle_file_change lib fs t h q"
    have k1: "debounce_seconds ?h1 = D"
      using handle_keeps [of lib fs t h q] Cons.prems(9) by simp
    have k2: "w_should_include_file lib ?h1 p"
      using include_cong [of ?h1 h lib p] handle_keeps [of lib fs t h q] Cons.prems(5)
      by simp
    have ct: "c \<le> t" using Cons.prems(4) Notify by simp
    have tl: "\<forall>a \<in> set acts. t \<le> action_time a" using Cons.prems(3) Notify by simp
    show ?thesis
    proof (cases "q = p")
      case True
      have isf: "path_isfile fs p" using Cons.prems(6) Notify True by simp
      have pend: "pending_changes ?h1 = AList.update p t (pending_changes h)"
        unfolding True by (rule handle_effective [OF isf Cons.prems(5)])
      have 1: "distinct (map fst (pending_changes ?h1))"
        using pend Cons.prems(1) by (simp add: distinct_update)
      have 2: "(p, t) \<in> set (pending_changes ?h1)" using pend update_mem by simp
      have 6: "list_all (\<lambda>fs. path_isfile fs p) (notified_in p acts)"
        using Cons.prems(6) Notify True by simp
      have 7: "\<forall>t \<in> set (notify_times p acts). t < f + real_of_int D"
        using Cons.prems(7) Notify True by simp
      have 8: "f \<le> t" using Cons.prems(8) ct by simp
      note IH = Cons.IH [OF 1 2 s3 tl k2 6 7 8 k1]
      then show ?thesis by (simp add: Notify True)
    next
      case False
      have 1: "distinct (map fst (pending_changes ?h1))"
        using handle_pending [of lib fs t h q] Cons.prems(1) by (auto simp: distinct_update)
      have 2: "(p, c) \<in> set (pending_changes ?h1)"
        using handle_pending [of lib fs t h q] Cons.prems(2)
              update_other_mem [OF Cons.prems(2) False, of t]
        by auto
      have 4: "\<forall>a \<in> set acts. c \<le> action_time a" using Cons.prems(4) by simp
      have 6: "list_all (\<lambda>fs. path_isfile fs p) (notified_in p acts)"
        using Cons.prems(6) Notify False by simp
      have 7: "\<forall>t \<in> set (notify_times p acts). t < f + real_of_int D"
        using Cons.prems(7) Notify False by simp
      note IH = Cons.IH [OF 1 2 s3 4 k2 6 7 Cons.prems(8) k1]
      then show ?thesis by (simp add: Notify False)
    qed
  next
    case (Drain fs post t)
    obtain h' released reqs where
      pr: "process_pending_changes lib fs post t h = (h', released, reqs)"
      by (cases "process_pending_changes lib fs post t h") auto
    note e = process_pending_eq [OF pr]
    note d = released_distinct [OF pr Cons.prems(1)]
    note ri = released_iff [OF pr Cons.prems(1,2)]
    have ct: "c \<le> t" using Cons.prems(4) Drain by simp
    have tl: "\<forall>a \<in> set acts. t \<le> action_time a" using Cons.prems(3) Drain by simp
    have nt: "notify_times p (a # acts) = notify_times p acts" using Drain by simp
    have rs: "release_times p (snd (run_watcher lib (a # acts) h))
                = release_times p (map (Pair t) released)
                  @ release_times p (snd (run_watcher lib acts h'))"
      unfolding Drain run_watcher_drain [OF pr] release_times_append ..
    show ?thesis
    proof (cases "real_of_int D \<le> t - c")
      case True
      then have rel: "p \<in> set released" using ri Cons.prems(9) by simp
      have idle: "p \<notin> fst ` set (pending_changes h')"
        using released_not_pending [OF pr rel] .
      have none: "notify_times p acts = []"
      proof (rule ccontr)
        assume "notify_times p acts \<noteq> []"
        then obtain t' where t': "t' \<in> set (notify_times p acts)"
          by (cases "notify_times p acts") auto
        then have "t' < f + real_of_int D" using Cons.prems(7) nt by simp
        moreover have "t \<le> t'" using notify_times_ge [OF tl] t' by blast
        ultimately show False using True Cons.prems(8) by simp
      qed
      have "release_times p (snd (run_watcher lib (a # acts) h)) = [t]"
        unfolding rs
        using release_times_present [OF conjunct1 [OF d] rel]
              no_release_when_idle [OF idle none]
        by simp
      then show ?thesis using True none nt by (simp add: coalesced_def)
    next
      case False
      then have rel: "p \<notin> set released" using ri Cons.prems(9) by simp
      have 2: "(p, c) \<in> set (pending_changes h')" using e rel Cons.prems(2) by simp
      have 4: "\<forall>a \<in> set acts. c \<le> action_time a" using Cons.prems(4) by simp
      have 5: "w_should_include_file lib h' p"
        using e Cons.prems(5) include_cong [of h' h lib p] by simp
      have 6: "list_all (\<lambda>fs. path_isfile fs p) (notified_in p acts)"
        using Cons.prems(6) Drain by simp
      have 7: "\<forall>t \<in> set (notify_times p acts). t < f + real_of_int D"
        using Cons.prems(7) nt by simp
      have 9: "debounce_seconds h' = D" using e Cons.prems(9) by simp
      note IH = Cons.IH [OF conjunct2 [OF d] 2 s3 4 5 6 7 Cons.prems(8) 9]
      have "c \<le> last (c # notify_times p acts)"
        using last_ge_first [OF notify_times_ge [OF 4]] .
      then have "\<not> last (c # notify_times p acts) + real_of_int D \<le> t"
        using False by simp
      then have due: "drain_due (last (c # notify_times p acts) + real_of_int D) (a # acts)
                  = drain_due (last (c # notify_times p acts) + real_of_int D) acts"
        using Drain by simp
      have "release_times p (snd (run_watcher lib (a # acts) h))
              = release_times p (snd (run_watcher lib acts h'))"
        unfolding rs using release_times_absent [OF rel] by simp
      with IH due nt show ?thesis by simp
    qed
  qed
qed

lemma first_release:
  assumes "sorted (map action_time acts)"
    and "distinct (map fst (pending_changes h))"
    and "p \<notin> fst ` set (pending_changes h)"
    and "w_should_include_file lib h p"
    and "list_all (\<lambda>fs. path_isfile fs p) (notified_in p acts)"
    and "notify_times p acts \<noteq> []"
    and "last (notify_times p acts) - hd (notify_times p acts) < real_of_int D"
    and "debounce_seconds h = D"
  shows "coalesced (release_times p (snd (run_watcher lib acts h)))
           (last (notify_times p acts) + real_of_int D)
           (drain_due (last (notify_times p acts) + real_of_int D) acts)"
  using assms
proof (induction acts arbitrary: h)
  case Nil
  then show ?case by simp
next
  case (Cons a acts)
  have s3: "sorted (map action_time acts)" using Cons.prems(1) by simp
  show ?case
  proof (cases a)
    case (Notify fs q t)
    let ?h1 = "handle_file_change lib fs t h q"
    have k1: "debounce_seconds ?h1 = D"
      using handle_keeps [of lib fs t h q] Cons.prems(8) by simp
    have k2: "w_should_include_file lib ?h1 p"
      using include_cong [of ?h1 h lib p] handle_keeps [of lib fs t h q] Cons.prems(4)
      by simp
    have tl: "\<forall>a \<in> set acts. t \<le> action_time a" using Cons.prems(1) Notify by simp
    have 1: "distinct (map fst (pending_changes ?h1))"
      using handle_pending [of lib fs t h q] Cons.prems(2) by (auto simp: distinct_update)
    show ?thesis
    proof (cases "q = p")
      case True
      have isf: "path_isfile fs p" using Cons.prems(5) Notify True by simp
      have pend: "pending_changes ?h1 = AList.update p t (pending_changes h)"
        unfolding True by (rule handle_effective [OF isf Cons.prems(4)])
      have 2: "(p, t) \<in> set (pending_changes ?h1)" using pend update_mem by simp
      have 6: "list_all (\<lambda>fs. path_isfile fs p) (notified_in p acts)"
        using Cons.prems(5) Notify True by simp
      have nts: "notify_times p (a # acts) = t # notify_times p acts"
        using Notify True by simp
      have srt: "sorted (t # notify_times p acts)"
        using sorted_notify_times [OF Cons.prems(1), of p] nts by simp
      have 7: "\<forall>t' \<in> set (notify_times p acts). t' < t + real_of_int D"
      proof
        fix t' assume "t' \<in> set (notify_times p acts)"
        then have "t' \<in> set (t # notify_times p acts)" by simp
        then have "t' \<le> last (t # notify_times p acts)" by (rule sorted_le_last [OF srt])
        moreover have "last (t # notify_times p acts) - t < real_of_int D"
          using Cons.prems(7) nts by simp
        ultimately show "t' < t + real_of_int D" by simp
      qed
      note B = pending_release [OF 1 2 s3 tl k2 6 7 order_refl k1]
      then show ?thesis by (simp add: Notify True)
    next
      case False
      have "fst ` set (pending_changes ?h1) \<subseteq> insert q (fst ` set (pending_changes h))"
        using handle_pending [of lib fs t h q] update_keys [of q t "pending_changes h"]
        by (metis subset_insertI order_refl)
      then have 3: "p \<notin> fst ` set (pending_changes ?h1)"
        using Cons.prems(3) False by blast
      have nts: "notify_times p (a # acts) = notify_times p acts"
        using Notify False by simp
      have 5: "list_all (\<lambda>fs. path_isfile fs p) (notified_in p acts)"
        using Cons.prems(5) Notify False by simp
      have 6: "notify_times p acts \<noteq> []" using Cons.prems(6) nts by simp
      have 7: "last (notify_times p acts) - hd (notify_times p acts) < real_of_int D"
        using Cons.prems(7) nts by simp
      note IH = Cons.IH [OF s3 1 3 k2 5 6 7 k1]
      then show ?thesis by (simp add: Notify False)
    qed
  next
    case (Drain fs post t)
    obtain h' released reqs where
      pr: "process_pending_changes lib fs post t h = (h', released, reqs)"
      by (cases "process_pending_changes lib fs post t h") auto
    note e = process_pending_eq [OF pr]
    note d = released_distinct [OF pr Cons.prems(2)]
    have tl: "\<forall>a \<in> set acts. t \<le> action_time a" using Cons.prems(1) Drain by simp
    have nts: "notify_times p (a # acts) = notify_times p acts" using Drain by simp
    have rel: "p \<notin> set released"
    proof
      assume "p \<in> set released"
      then have "p \<in> fst ` set (filter (\<lambda>e. t - snd e \<ge> real_of_int (debounce_seconds h))
                              (pending_changes h))"
        using e by simp
      then have "p \<in> fst ` set (pending_changes h)" by auto
      with Cons.prems(3) show False by simp
    qed
    have 3: "p \<notin> fst ` set (pending_changes h')"
    proof
      assume "p \<in> fst ` set (pending_changes h')"
      then have "p \<in> fst ` set (filter (\<lambda>e. fst e \<notin> set released) (pending_changes h))"
        using e by simp
      then have "p \<in> fst ` set (pending_changes h)" by auto
      with Cons.prems(3) show False by simp
    qed
    have 4: "w_should_include_file lib h' p"
      using e Cons.prems(4) include_cong [of h' h lib p] by simp
    have 5: "list_all (\<lambda>fs. path_isfile fs p) (notified_in p acts)"
      using Cons.prems(5) Drain by simp
    have 6: "notify_times p acts \<noteq> []" using Cons.prems(6) nts by simp
    have 7: "last (notify_times p acts) - hd (notify_times p acts) < real_of_int D"
      using Cons.prems(7) nts by simp
    have 8: "debounce_seconds h' = D" using e Cons.prems(8) by simp
    note IH = Cons.IH [OF s3 conjunct2 [OF d] 3 4 5 6 7 8]
    have srt: "sorted (notify_times p acts)" by (rule sorted_notify_times [OF s3])
    have "hd (notify_times p acts) \<in> set (notify_times p acts)" using 6 by simp
    then have "hd (notify_times p acts) \<le> last (notify_times p acts)"
      by (rule sorted_le_last [OF srt])
    with 7 have pos: "0 < real_of_int D" by simp
    have "last (notify_times p acts) \<in> set (notify_times p acts)" using 6 by simp
    then have "t \<le> last (notify_times p acts)" using notify_times_ge [OF tl] by blast
    with pos have "\<not> last (notify_times p acts) + real_of_int D \<le> t" by simp
    then have due: "drain_due (last (notify_times p acts) + real_of_int D) (a # acts)
                  = drain_due (last (notify_times p acts) + real_of_int D) acts"
      using Drain by simp
    have "release_times p (snd (run_watcher lib (a # acts) h))
            = release_times p (snd (run_watcher lib acts h'))"
      unfolding Drain run_watcher_drain [OF pr] release_times_append
      using release_times_absent [OF rel] by simp
    with IH due nts show ?thesis by simp
  qed
qed

lemma map_of_update_same: "map_of (AList.update k v al) k = Some v"
  by (induction al) auto

text \<open>
  Claim C4 (amended). Take a run of the watcher, its actions in the order of their
  times, and a path that matches the include patterns, is not pending at the start, and
  receives at least one notification, each raised while the path is a regular file, all
  of them less than \<^verbatim>\<open>debounce_seconds\<close> apart. Then the path is released at most
  once; no release takes place sooner than \<^verbatim>\<open>debounce_seconds\<close> after the last
  notification; and it is released exactly once if a drain takes place at or after that
  time. A notification for an existing file leaves one pending record for the path,
  holding the time of that notification; a notification for a path that does not exist
  leaves the pending records as they were.
\<close>

theorem debounce_coalesces:
  assumes "sorted (map action_time acts)"
    and "distinct (map fst (pending_changes h))"
    and "p \<notin> fst ` set (pending_changes h)"
    and "w_should_include_file lib h p"
    and "list_all (\<lambda>fs. path_isfile fs p) (notified_in p acts)"
    and "notify_times p acts \<noteq> []"
    and "last (notify_times p acts) - hd (notify_times p acts)
           < real_of_int (debounce_seconds h)"
  shows "length (release_times p (snd (run_watcher lib acts h))) \<le> 1 \<and>
         (\<forall>t \<in> set (release_times p (snd (run_watcher lib acts h))).
            last (notify_times p acts) + real_of_int (debounce_seconds h) \<le> t) \<and>
         (drain_due (last (notify_times p acts) + real_of_int (debounce_seconds h)) acts
            \<longrightarrow> length (release_times p (snd (run_watcher lib acts h))) = 1) \<and>
         (\<forall>fs now. path_isfile fs p \<longrightarrow>
            distinct (map fst (pending_changes (handle_file_change lib fs now h p))) \<and>
            map_of (pending_changes (handle_file_change lib fs now h p)) p = Some now) \<and>
         (\<forall>fs now. \<not> path_exists fs p \<longrightarrow>
            pending_changes (handle_file_change lib fs now h p) = pending_changes h)"
proof -
  have c: "coalesced (release_times p (snd (run_watcher lib acts h)))
           (last (notify_times p acts) + real_of_int (debounce_seconds h))
           (drain_due (last (notify_times p acts) + real_of_int (debounce_seconds h)) acts)"
    using first_release [OF assms refl] .
  have u: "\<forall>fs now. path_isfile fs p \<longrightarrow>
            distinct (map fst (pending_changes (handle_file_change lib fs now h p))) \<and>
            map_of (pending_changes (handle_file_change lib fs now h p)) p = Some now"
    using handle_effective [OF _ assms(4)] assms(2)
    by (simp add: distinct_update map_of_update_same)
  from c have "length (release_times p (snd (run_watcher lib acts h))) \<le> 1"
    and "\<forall>t \<in> set (release_times p (snd (run_watcher lib acts h))).
            last (notify_times p acts) + real_of_int (debounce_seconds h) \<le> t"
    and "drain_due (last (notify_times p acts) + real_of_int (debounce_seconds h)) acts
            \<longrightarrow> length (release_times p (snd (run_watcher lib acts h))) = 1"
    by (auto simp: coalesced_def list_all_iff le_Suc_eq)
  moreover have "\<forall>fs now. \<not> path_exists fs p \<longrightarrow>
            pending_changes (handle_file_change lib fs now h p) = pending_changes h"
    by (simp add: handle_file_change_def)
  ultimately show ?thesis using u by blast
qed

lemma ex_locked_included:
  "w_should_include_file ex_lib ex_handler ''/ragflow/mounted_data/docs/locked.txt''"
  by code_simp

lemma ex_locked_isfile:
  "path_isfile ex_fs ''/ragflow/mounted_data/docs/locked.txt''"
  by code_simp

lemma ex_trace_release:
  "release_times ''/ragflow/mounted_data/docs/locked.txt''
     (snd (run_watcher ex_lib ex_trace ex_handler)) = [3]"
  by code_simp

theorem debounce_coalesces_witness:
  "length (release_times ''/ragflow/mounted_data/docs/locked.txt''
             (snd (run_watcher ex_lib ex_trace ex_handler))) = 1 \<and>
   list_all (\<lambda>t. 1 + 2 \<le> t)
     (release_times ''/ragflow/mounted_data/docs/locked.txt''
        (snd (run_watcher ex_lib ex_trace ex_handler)))"
proof -
  let ?p = "''/ragflow/mounted_data/docs/locked.txt''"
  have 1: "sorted (map action_time ex_trace)" by (simp add: ex_trace_def)
  have 2: "distinct (map fst (pending_changes ex_handler))" by (simp add: ex_handler_def)
  have 3: "?p \<notin> fst ` set (pending_changes ex_handler)" by (simp add: ex_handler_def)
  have 5: "list_all (\<lambda>fs. path_isfile fs ?p) (notified_in ?p ex_trace)"
    using ex_locked_isfile by (simp add: ex_trace_def)
  have nt: "notify_times ?p ex_trace = [0, 1]" by (simp add: ex_trace_def)
  have 6: "notify_times ?p ex_trace \<noteq> []" using nt by simp
  have 7: "last (notify_times ?p ex_trace) - hd (notify_times ?p ex_trace)
             < real_of_int (debounce_seconds ex_handler)"
    using nt by (simp add: ex_handler_def)
  have due: "drain_due (last (notify_times ?p ex_trace)
                          + real_of_int (debounce_seconds ex_handler)) ex_trace"
    using nt by (simp add: ex_handler_def ex_trace_def)
  have b: "last (notify_times ?p ex_trace) + real_of_int (debounce_seconds ex_handler) = 1 + 2"
    using nt by (simp add: ex_handler_def)
  show ?thesis
    using debounce_coalesces [OF 1 2 3 ex_locked_included 5 6 7] due
    unfolding b list_all_iff by blast
qed

theorem deleted_path_is_never_released:
  "\<not> (\<forall>lib acts h p.
         sorted (map action_time acts) \<and> distinct (map fst (pending_changes h)) \<and>
         p \<notin> fst ` set (pending_changes h) \<and> notify_times p acts \<noteq> [] \<and>
         last (notify_times p acts) - hd (notify_times p acts)
           < real_of_int (debounce_seconds h) \<and>
         drain_due (last (notify_times p acts) + real_of_int (debounce_seconds h)) acts
         \<longrightarrow> length (release_times p (snd (run_watcher lib acts h))) = 1)"
proof
  assume a: "\<forall>lib acts h p.
         sorted (map action_time acts) \<and> distinct (map fst (pending_changes h)) \<and>
         p \<notin> fst ` set (pending_changes h) \<and> notify_times p acts \<noteq> [] \<and>
         last (notify_times p acts) - hd (notify_times p acts)
           < real_of_int (debounce_seconds h) \<and>
         drain_due (last (notify_times p acts) + real_of_int (debounce_seconds h)) acts
         \<longrightarrow> length (release_times p (snd (run_watcher lib acts h))) = 1"
  let ?p = "''/ragflow/mounted_data/docs/a.txt''"
  let ?acts = "[Notify ex_fs_deleted ?p 0, Drain ex_fs_deleted (\<lambda>req. HttpResponse 200) 3]"
  have gone: "\<not> path_exists ex_fs_deleted ?p" by code_simp
  have "sorted (map action_time ?acts) \<and> distinct (map fst (pending_changes ex_handler)) \<and>
         ?p \<notin> fst ` set (pending_changes ex_handler) \<and> notify_times ?p ?acts \<noteq> [] \<and>
         last (notify_times ?p ?acts) - hd (notify_times ?p ?acts)
           < real_of_int (debounce_seconds ex_handler) \<and>
         drain_due (last (notify_times ?p ?acts) + real_of_int (debounce_seconds ex_handler))
           ?acts"
    by (simp add: ex_handler_def)
  with a have one: "length (release_times ?p (snd (run_watcher ex_lib ?acts ex_handler))) = 1"
    by blast
  have "pending_changes (handle_file_change ex_lib ex_fs_deleted 0 ex_handler ?p)
          = pending_changes ex_handler"
    using gone by (simp add: handle_file_change_def)
  then have idle: "?p \<notin> fst ` set (pending_changes
                      (handle_file_change ex_lib ex_fs_deleted 0 ex_handler ?p))"
    by (simp add: ex_handler_def)
  have "release_times ?p (snd (run_watcher ex_lib
          [Drain ex_fs_deleted (\<lambda>req. HttpResponse 200) 3]
          (handle_file_change ex_lib ex_fs_deleted 0 ex_handler ?p))) = []"
    by (rule no_release_when_idle [OF idle]) simp
  then have "release_times ?p (snd (run_watcher ex_lib ?acts ex_handler)) = []"
    by simp
  with one show False by simp
qed

section \<open>Deletion of a pending path\<close>

lemma handle_deleted:
  "\<not> path_exists fs p \<Longrightarrow>
     pending_changes (handle_file_change lib fs now h p) = pending_changes h \<and>
     debounce_seconds (handle_file_change lib fs now h p) = debounce_seconds h \<and>
     file_hashes (handle_file_change lib fs now h p) = (file_hashes h)(p := None)"
  by (auto simp: handle_file_change_def domIff)

text \<open>
  Claim C6 (amended). A notification for a path that no longer exists removes the
  tracked fingerprint of the path and leaves \<^verbatim>\<open>pending_changes\<close> as it was: a
  pending record of the path survives, with the time of the earlier notification, and
  the path is still released by the first drain at least \<^verbatim>\<open>debounce_seconds\<close> after
  that time. The release of a path that does not exist posts nothing and leaves the
  state as it was.
\<close>

theorem delete_keeps_pending_record:
  assumes "\<not> path_exists fs p"
  shows "pending_changes (handle_file_change lib fs now h p) = pending_changes h \<and>
         file_hashes (handle_file_change lib fs now h p) = (file_hashes h)(p := None) \<and>
         (distinct (map fst (pending_changes h)) \<and> (p, c) \<in> set (pending_changes h) \<and>
          real_of_int (debounce_seconds h) \<le> t - c \<longrightarrow>
            p \<in> set (fst (snd (process_pending_changes lib fs' post t
                                  (handle_file_change lib fs now h p))))) \<and>
         sync_file_to_ragflow lib fs post h' p = (h', [])"
proof -
  let ?h1 = "handle_file_change lib fs now h p"
  note k = handle_deleted [OF assms, of lib now h]
  have "distinct (map fst (pending_changes h)) \<and> (p, c) \<in> set (pending_changes h) \<and>
          real_of_int (debounce_seconds h) \<le> t - c \<longrightarrow>
            p \<in> set (fst (snd (process_pending_changes lib fs' post t ?h1)))"
  proof
    assume a: "distinct (map fst (pending_changes h)) \<and> (p, c) \<in> set (pending_changes h) \<and>
          real_of_int (debounce_seconds h) \<le> t - c"
    obtain h2 released reqs where
      pr: "process_pending_changes lib fs' post t ?h1 = (h2, released, reqs)"
      by (cases "process_pending_changes lib fs' post t ?h1") auto
    have "distinct (map fst (pending_changes ?h1))" "(p, c) \<in> set (pending_changes ?h1)"
      using a k by simp_all
    from released_iff [OF pr this] a k have "p \<in> set released" by simp
    with pr show "p \<in> set (fst (snd (process_pending_changes lib fs' post t ?h1)))"
      by simp
  qed
  with k sync_absent [OF assms] show ?thesis by blast
qed

lemma ex_a_gone: "\<not> path_exists ex_fs_deleted ''/ragflow/mounted_data/docs/a.txt''"
  by code_simp

lemma ex_a_isfile: "path_isfile ex_fs ''/ragflow/mounted_data/docs/a.txt''"
  by code_simp

lemma ex_a_included:
  "w_should_include_file ex_lib ex_handler ''/ragflow/mounted_data/docs/a.txt''"
  by code_simp

theorem delete_keeps_pending_record_witness:
  "pending_changes (handle_file_change ex_lib ex_fs_deleted 1
      (ex_handler\<lparr>pending_changes := [(''/ragflow/mounted_data/docs/a.txt'', 0)]\<rparr>)
      ''/ragflow/mounted_data/docs/a.txt'')
     = [(''/ragflow/mounted_data/docs/a.txt'', 0)] \<and>
   ''/ragflow/mounted_data/docs/a.txt'' \<in> set (fst (snd
      (process_pending_changes ex_lib ex_fs_deleted (\<lambda>req. HttpResponse 200) 3
         (handle_file_change ex_lib ex_fs_deleted 1
            (ex_handler\<lparr>pending_changes := [(''/ragflow/mounted_data/docs/a.txt'', 0)]\<rparr>)
            ''/ragflow/mounted_data/docs/a.txt''))))"
proof -
  let ?a = "''/ragflow/mounted_data/docs/a.txt''"
  let ?h = "ex_handler\<lparr>pending_changes := [(?a, 0)]\<rparr>"
  have h: "distinct (map fst (pending_changes ?h)) \<and> (?a, 0) \<in> set (pending_changes ?h) \<and>
           real_of_int (debounce_seconds ?h) \<le> 3 - 0"
    by (simp add: ex_handler_def)
  show ?thesis
    using delete_keeps_pending_record [OF ex_a_gone, of ex_lib 1 ?h 0 3 ex_fs_deleted
            "\<lambda>req. HttpResponse 200"] h
    by simp
qed

theorem stale_release_after_delete:
  "release_times ''/ragflow/mounted_data/docs/a.txt''
     (snd (run_watcher ex_lib
        [Notify ex_fs ''/ragflow/mounted_data/docs/a.txt'' 0,
         Notify ex_fs_deleted ''/ragflow/mounted_data/docs/a.txt'' 1,
         Drain ex_fs_deleted (\<lambda>req. HttpResponse 200) 3]
        ex_handler)) = [3]"
proof -
  let ?a = "''/ragflow/mounted_data/docs/a.txt''"
  let ?h1 = "handle_file_change ex_lib ex_fs 0 ex_handler ?a"
  let ?h2 = "handle_file_change ex_lib ex_fs_deleted 1 ?h1 ?a"
  have p1: "pending_changes ?h1 = [(?a, 0)]"
    using handle_effective [OF ex_a_isfile ex_a_included, of 0] by (simp add: ex_handler_def)
  have d1: "debounce_seconds ?h1 = 2"
    using handle_keeps [of ex_lib ex_fs 0 ex_handler ?a] by (simp add: ex_handler_def)
  have p2: "pending_changes ?h2 = [(?a, 0)]" "debounce_seconds ?h2 = 2"
    using handle_deleted [OF ex_a_gone, of ex_lib 1 ?h1] p1 d1 by simp_all
  obtain h3 released reqs where
    pr: "process_pending_changes ex_lib ex_fs_deleted (\<lambda>req. HttpResponse 200) 3 ?h2
           = (h3, released, reqs)"
    by (cases "process_pending_changes ex_lib ex_fs_deleted (\<lambda>req. HttpResponse 200) 3 ?h2")
       auto
  have "released = [?a]" using process_pending_eq [OF pr] p2 by simp
  then have "snd (run_watcher ex_lib
               [Drain ex_fs_deleted (\<lambda>req. HttpResponse 200) 3] ?h2) = [(3, ?a)]"
    using run_watcher_drain [OF pr, of "[]"] by simp
  then show ?thesis by (simp add: release_times_def)
qed

end
